theory Spec2Isabelle
  imports Main "HOL-Library.Word" "HOL-Library.AList" "HOL-Library.Multiset"
begin

unbundle bit_operations_syntax

section \<open>Data model of the connection manager (connmgr.go)\<close>

text \<open>
  A \<^verbatim>\<open>peer.ID\<close> is a Go string, that is a sequence of bytes. A connection handle is
  an opaque value that knows its remote peer and its remote address. Go's \<^verbatim>\<open>int\<close> is
  a 64-bit word and \<^verbatim>\<open>int32\<close> a 32-bit word; their arithmetic wraps and their
  comparisons are signed.

  Instants and durations (\<^verbatim>\<open>time.Time\<close>, \<^verbatim>\<open>time.Duration\<close>) are integers counting
  nanoseconds, instants from Go's zero time, which is the initial \<^verbatim>\<open>lastTrim\<close>. They
  are unbounded: the saturation of \<^verbatim>\<open>time.Since\<close> beyond 292 years is left out. Every
  call of \<^verbatim>\<open>time.Now()\<close> is an argument of the operation that makes it.

  A Go map that the code ranges over is an association list whose keys are distinct;
  the order of the list is the order in which the range statement visits the entries
  (Go leaves it unspecified, so every order is a possible state). Maps that are only
  looked up are partial functions.

  The operations run one at a time: the locks, the atomic access to the counter and
  the background goroutine, which calls \<^verbatim>\<open>TrimOpenConns\<close> every minute when the counter
  exceeds the high watermark, have no counterpart here.
\<close>

type_synonym peer_id = "8 word list"
type_synonym time = int
type_synonym duration = int

datatype conn = Conn (RemotePeer: peer_id) (RemoteMultiaddr: string) (connNo: nat)

datatype error = IndexOutOfRange | CapOutOfRange

record peerInfo =
  id' :: peer_id
  tags :: "(string \<times> 64 word) list"
  value' :: "64 word"
  temp :: bool
  conns :: "(conn \<times> time) list"
  firstSeen :: time

type_synonym segment = "(peer_id \<times> peerInfo) list"

record PhoreConnMgr =
  highWater :: "64 word"
  lowWater :: "64 word"
  connCount :: "32 word"
  gracePeriod :: duration
  segments :: "8 word \<Rightarrow> segment"
  protected :: "peer_id \<rightharpoonup> string set"
  minimumPeersForProtocol :: "string \<rightharpoonup> 64 word"
  peerstore :: "peer_id \<Rightarrow> string list option"
  trimRunning :: bool
  lastTrim :: time
  silencePeriod :: duration

text \<open>
  \<^verbatim>\<open>peerstore.GetProtocols(id)\<close> is the field \<open>peerstore\<close>: \<open>None\<close> is a lookup that
  returns an error. \<open>trimRunning\<close> says whether the one-slot channel \<^verbatim>\<open>trimRunningCh\<close>
  is occupied.
\<close>

record TagInfo =
  FirstSeen :: time
  Value :: "64 word"
  Tags :: "(string \<times> 64 word) list"
  Conns :: "(string \<times> time) list"

section \<open>The sharded registry\<close>

text \<open>\<^verbatim>\<open>ss[byte(p[len(p)-1])]\<close>: indexing an empty string at \<open>-1\<close> panics.\<close>

definition segments_get :: "peer_id \<Rightarrow> 8 word option" where
  "segments_get p = (if length p = 0 then None else Some (p ! (length p - 1)))"

definition allShards :: "8 word list" where
  "allShards = map of_nat [0..<256]"

text \<open>\<^verbatim>\<open>countPeers\<close> only sizes the slice of candidates.\<close>

definition countPeers :: "PhoreConnMgr \<Rightarrow> nat" where
  "countPeers cm = sum_list (map (\<lambda>b. length (segments cm b)) allShards)"

definition tagInfoFor :: "segment \<Rightarrow> peer_id \<Rightarrow> time \<Rightarrow> peerInfo \<times> segment" where
  "tagInfoFor s p now =
     (case map_of s p of
        Some pi \<Rightarrow> (pi, s)
      | None \<Rightarrow>
          (let pi = \<lparr>id' = p, tags = [], value' = 0, temp = True, conns = [], firstSeen = now\<rparr>
           in (pi, AList.update p pi s)))"

definition SilencePeriod :: duration where
  "SilencePeriod = 10 * 1000000000"

definition NewConnManager ::
  "64 word \<Rightarrow> 64 word \<Rightarrow> duration \<Rightarrow> (peer_id \<Rightarrow> string list option) \<Rightarrow> (string \<rightharpoonup> 64 word)
     \<Rightarrow> PhoreConnMgr" where
  "NewConnManager low hi grace ps protectedProtocols =
     \<lparr>highWater = hi, lowWater = low, connCount = 0, gracePeriod = grace,
      segments = (\<lambda>_. []), protected = Map.empty,
      minimumPeersForProtocol = protectedProtocols, peerstore = ps,
      trimRunning = False, lastTrim = 0, silencePeriod = SilencePeriod\<rparr>"

section \<open>Protection registry\<close>

definition Protect :: "PhoreConnMgr \<Rightarrow> peer_id \<Rightarrow> string \<Rightarrow> PhoreConnMgr" where
  "Protect cm p tag =
     (let ts = (case protected cm p of None \<Rightarrow> {} | Some ts \<Rightarrow> ts)
      in cm\<lparr>protected := (protected cm)(p \<mapsto> insert tag ts)\<rparr>)"

text \<open>
  \<^verbatim>\<open>Unprotect\<close> returns the named result \<^verbatim>\<open>protected\<close>. The inner map is shared with
  the registry, so deleting the tag from it is written back to the registry.
\<close>

definition Unprotect :: "PhoreConnMgr \<Rightarrow> peer_id \<Rightarrow> string \<Rightarrow> bool \<times> PhoreConnMgr" where
  "Unprotect cm p tag =
     (case protected cm p of
        None \<Rightarrow> (False, cm)
      | Some ts \<Rightarrow>
          (let ts' = ts - {tag}
           in if ts' = {} then (False, cm\<lparr>protected := (protected cm)(p := None)\<rparr>)
              else (True, cm\<lparr>protected := (protected cm)(p \<mapsto> ts')\<rparr>)))"

section \<open>Tag accounting\<close>

text \<open>Reading a Go map of integers at a missing key gives 0.\<close>

definition lookup0 :: "(string \<times> 64 word) list \<Rightarrow> string \<Rightarrow> 64 word" where
  "lookup0 m k = (case map_of m k of None \<Rightarrow> 0 | Some v \<Rightarrow> v)"

definition TagPeer :: "PhoreConnMgr \<Rightarrow> peer_id \<Rightarrow> string \<Rightarrow> 64 word \<Rightarrow> time \<Rightarrow> error + PhoreConnMgr" where
  "TagPeer cm p tag val now =
     (case segments_get p of
        None \<Rightarrow> Inl IndexOutOfRange
      | Some b \<Rightarrow>
          (let (pi, s) = tagInfoFor (segments cm b) p now;
               pi' = pi\<lparr>value' := value' pi + (val - lookup0 (tags pi) tag),
                        tags := AList.update tag val (tags pi)\<rparr>
           in Inr (cm\<lparr>segments := (segments cm)(b := AList.update p pi' s)\<rparr>)))"

definition UntagPeer :: "PhoreConnMgr \<Rightarrow> peer_id \<Rightarrow> string \<Rightarrow> error + PhoreConnMgr" where
  "UntagPeer cm p tag =
     (case segments_get p of
        None \<Rightarrow> Inl IndexOutOfRange
      | Some b \<Rightarrow>
          (case map_of (segments cm b) p of
             None \<Rightarrow> Inr cm
           | Some pi \<Rightarrow>
               (let pi' = pi\<lparr>value' := value' pi - lookup0 (tags pi) tag,
                            tags := AList.delete tag (tags pi)\<rparr>
                in Inr (cm\<lparr>segments := (segments cm)(b := AList.update p pi' (segments cm b))\<rparr>))))"

definition UpsertTag ::
  "PhoreConnMgr \<Rightarrow> peer_id \<Rightarrow> string \<Rightarrow> (64 word \<Rightarrow> 64 word) \<Rightarrow> time \<Rightarrow> error + PhoreConnMgr" where
  "UpsertTag cm p tag upsert now =
     (case segments_get p of
        None \<Rightarrow> Inl IndexOutOfRange
      | Some b \<Rightarrow>
          (let (pi, s) = tagInfoFor (segments cm b) p now;
               oldval = lookup0 (tags pi) tag;
               newval = upsert oldval;
               pi' = pi\<lparr>value' := value' pi + (newval - oldval),
                        tags := AList.update tag newval (tags pi)\<rparr>
           in Inr (cm\<lparr>segments := (segments cm)(b := AList.update p pi' s)\<rparr>)))"

text \<open>
  \<^verbatim>\<open>GetTagInfo\<close> copies the tags and keys the connection times by the remote
  address; \<open>None\<close> is the nil result for an unknown peer.
\<close>

definition GetTagInfo :: "PhoreConnMgr \<Rightarrow> peer_id \<Rightarrow> error + TagInfo option" where
  "GetTagInfo cm p =
     (case segments_get p of
        None \<Rightarrow> Inl IndexOutOfRange
      | Some b \<Rightarrow>
          (case map_of (segments cm b) p of
             None \<Rightarrow> Inr None
           | Some pi \<Rightarrow>
               Inr (Some \<lparr>FirstSeen = firstSeen pi, Value = value' pi,
                          Tags = fold (\<lambda>(t, v) out. AList.update t v out) (tags pi) [],
                          Conns = fold (\<lambda>(c, t) out. AList.update (RemoteMultiaddr c) t out)
                                    (conns pi) []\<rparr>)))"

section \<open>Connection tracking\<close>

text \<open>
  \<^verbatim>\<open>Connected\<close> reads the clock when it creates or promotes the record (\<open>tSeen\<close>) and
  again when it stores the connection (\<open>tConn\<close>).
\<close>

definition Connected :: "PhoreConnMgr \<Rightarrow> conn \<Rightarrow> time \<Rightarrow> time \<Rightarrow> error + PhoreConnMgr" where
  "Connected cm c tSeen tConn =
     (let p = RemotePeer c in
      case segments_get p of
        None \<Rightarrow> Inl IndexOutOfRange
      | Some b \<Rightarrow>
          (let s = segments cm b;
               (pinfo, s1) =
                 (case map_of s p of
                    None \<Rightarrow>
                      (let pi = \<lparr>id' = p, tags = [], value' = 0, temp = False, conns = [],
                                 firstSeen = tSeen\<rparr>
                       in (pi, AList.update p pi s))
                  | Some pi \<Rightarrow>
                      if temp pi
                      then (let pi' = pi\<lparr>temp := False, firstSeen := tSeen\<rparr>
                            in (pi', AList.update p pi' s))
                      else (pi, s))
           in if map_of (conns pinfo) c \<noteq> None
              then Inr (cm\<lparr>segments := (segments cm)(b := s1)\<rparr>)
              else Inr (cm\<lparr>segments := (segments cm)
                              (b := AList.update p
                                      (pinfo\<lparr>conns := AList.update c tConn (conns pinfo)\<rparr>) s1),
                            connCount := connCount cm + 1\<rparr>)))"

definition Disconnected :: "PhoreConnMgr \<Rightarrow> conn \<Rightarrow> error + PhoreConnMgr" where
  "Disconnected cm c =
     (let p = RemotePeer c in
      case segments_get p of
        None \<Rightarrow> Inl IndexOutOfRange
      | Some b \<Rightarrow>
          (case map_of (segments cm b) p of
             None \<Rightarrow> Inr cm
           | Some cinf \<Rightarrow>
               if map_of (conns cinf) c = None then Inr cm
               else (let cinf' = cinf\<lparr>conns := AList.delete c (conns cinf)\<rparr>;
                         s1 = AList.update p cinf' (segments cm b);
                         s2 = (if length (conns cinf') = 0 then AList.delete p s1 else s1)
                     in Inr (cm\<lparr>segments := (segments cm)(b := s2),
                                 connCount := connCount cm - 1\<rparr>))))"

section \<open>Trim engine\<close>

text \<open>The \<^verbatim>\<open>less\<close> function handed to \<^verbatim>\<open>sort.Slice\<close>.\<close>

definition candLess :: "peerInfo \<Rightarrow> peerInfo \<Rightarrow> bool" where
  "candLess left right =
     (if temp left \<noteq> temp right then temp left
      else word_sless (value' left) (value' right))"

text \<open>
  \<^verbatim>\<open>sort.Slice\<close> is not stable: it returns some permutation of the slice that is
  ordered by \<^verbatim>\<open>less\<close>. The sort is therefore a parameter \<open>srt\<close> of the trim, and
  \<open>sortSliceSpec\<close> is what the library promises about it. \<open>sortSlice\<close> is one such
  sort, an insertion sort.
\<close>

definition sortSliceSpec :: "(peerInfo list \<Rightarrow> peerInfo list) \<Rightarrow> bool" where
  "sortSliceSpec srt \<longleftrightarrow>
     (\<forall>xs. mset (srt xs) = mset xs \<and> sorted_wrt (\<lambda>a b. \<not> candLess b a) (srt xs))"

fun insertCand :: "peerInfo \<Rightarrow> peerInfo list \<Rightarrow> peerInfo list" where
  "insertCand x [] = [x]"
| "insertCand x (y # ys) = (if candLess x y then x # y # ys else y # insertCand x ys)"

fun sortSlice :: "peerInfo list \<Rightarrow> peerInfo list" where
  "sortSlice [] = []"
| "sortSlice (x # xs) = insertCand x (sortSlice xs)"

text \<open>
  The loop over \<^verbatim>\<open>peerSupportedProtos\<close>. It returns the updated \<^verbatim>\<open>numPeersForProto\<close>
  and whether the peer left the loop by \<^verbatim>\<open>continue next_peer_loop\<close>.
\<close>

definition count0 :: "(string \<rightharpoonup> 64 word) \<Rightarrow> string \<Rightarrow> 64 word" where
  "count0 m k = (case m k of None \<Rightarrow> 0 | Some v \<Rightarrow> v)"

fun protoLoop ::
  "(string \<rightharpoonup> 64 word) \<Rightarrow> (string \<rightharpoonup> 64 word) \<Rightarrow> string list \<Rightarrow> (string \<rightharpoonup> 64 word) \<times> bool" where
  "protoLoop mins numPeersForProto [] = (numPeersForProto, False)"
| "protoLoop mins numPeersForProto (supportedID # rest) =
     (let num' = (case numPeersForProto supportedID of
                    None \<Rightarrow> numPeersForProto(supportedID \<mapsto> 1)
                  | Some n \<Rightarrow> numPeersForProto(supportedID \<mapsto> n + 1))
      in case mins supportedID of
           None \<Rightarrow> protoLoop mins num' rest
         | Some minPeers \<Rightarrow>
             if word_sle minPeers 0 then protoLoop mins num' rest
             else if word_sle (count0 num' supportedID) minPeers then (num', True)
             else protoLoop mins num' rest)"

text \<open>The loop over the peers of one shard, and the loop over the shards.\<close>

fun scanPeers ::
  "PhoreConnMgr \<Rightarrow> (string \<rightharpoonup> 64 word) \<times> peerInfo list \<Rightarrow> segment
     \<Rightarrow> (string \<rightharpoonup> 64 word) \<times> peerInfo list" where
  "scanPeers cm (num, candidates) [] = (num, candidates)"
| "scanPeers cm (num, candidates) ((p, pinf) # rest) =
     (if protected cm p \<noteq> None then scanPeers cm (num, candidates) rest
      else case peerstore cm p of
             None \<Rightarrow> scanPeers cm (num, candidates @ [pinf]) rest
           | Some peerSupportedProtos \<Rightarrow>
               (case protoLoop (minimumPeersForProtocol cm) num peerSupportedProtos of
                  (num', True) \<Rightarrow> scanPeers cm (num', candidates) rest
                | (num', False) \<Rightarrow> scanPeers cm (num', candidates @ [pinf]) rest))"

fun scanSegments ::
  "PhoreConnMgr \<Rightarrow> (string \<rightharpoonup> 64 word) \<times> peerInfo list \<Rightarrow> 8 word list
     \<Rightarrow> (string \<rightharpoonup> 64 word) \<times> peerInfo list" where
  "scanSegments cm acc [] = acc"
| "scanSegments cm acc (b # bs) = scanSegments cm (scanPeers cm acc (segments cm b)) bs"

text \<open>
  The loop over the sorted candidates. It selects connections and deletes stale
  temporary records from their shards, so it returns the state as well.
\<close>

fun selectLoop ::
  "PhoreConnMgr \<Rightarrow> time \<Rightarrow> peerInfo list \<Rightarrow> 64 word \<Rightarrow> conn list
     \<Rightarrow> error + (conn list \<times> PhoreConnMgr)" where
  "selectLoop cm now [] target selected = Inr (selected, cm)"
| "selectLoop cm now (pinf # rest) target selected =
     (if word_sle target 0 then Inr (selected, cm)
      else if firstSeen pinf + gracePeriod cm > now then selectLoop cm now rest target selected
      else case segments_get (id' pinf) of
             None \<Rightarrow> Inl IndexOutOfRange
           | Some b \<Rightarrow>
               (let target' = target - of_nat (length (conns pinf))
                in if length (conns pinf) = 0 \<and> temp pinf
                   then selectLoop
                          (cm\<lparr>segments := (segments cm)(b := AList.delete (id' pinf) (segments cm b))\<rparr>)
                          now rest target' selected
                   else selectLoop cm now rest target' (selected @ map fst (conns pinf))))"

text \<open>
  \<^verbatim>\<open>make([]network.Conn, 0, target+10)\<close>: the runtime panics when the capacity is
  negative or when the slice would exceed the largest allocation, which on a 64-bit
  platform is \<open>2^48\<close> bytes, that is \<open>2^44\<close> interface values of 16 bytes. The sum
  \<^verbatim>\<open>target+10\<close> wraps like every Go \<^verbatim>\<open>int\<close>. The other allocation of the function,
  \<^verbatim>\<open>make([]*peerInfo, 0, npeers)\<close>, is sized by the number of records that the shards
  hold in memory already. Running out of memory is outside the model: when the low
  watermark is not negative, the capacity is at most the connection counter plus 10.
\<close>

definition maxConnCap :: "64 word" where
  "maxConnCap = 17592186044416"

definition makesliceOK :: "64 word \<Rightarrow> bool" where
  "makesliceOK capacity \<longleftrightarrow> word_sle 0 capacity \<and> word_sle capacity maxConnCap"

definition getConnsToClose ::
  "(peerInfo list \<Rightarrow> peerInfo list) \<Rightarrow> PhoreConnMgr \<Rightarrow> time \<Rightarrow> error + (conn list \<times> PhoreConnMgr)" where
  "getConnsToClose srt cm now =
     (if lowWater cm = 0 \<or> highWater cm = 0 then Inr ([], cm)
      else
        (let nconns = (scast (connCount cm) :: 64 word)
         in if word_sle nconns (lowWater cm) then Inr ([], cm)
            else
              (let (num, candidates) = scanSegments cm (Map.empty, []) allShards;
                   sorted = srt candidates;
                   target = nconns - lowWater cm
               in if \<not> makesliceOK (target + 10) then Inl CapOutOfRange
                  else selectLoop cm now sorted target [])))"

text \<open>
  \<^verbatim>\<open>TrimOpenConns\<close> reads the clock for \<^verbatim>\<open>time.Since\<close> (\<open>tSince\<close>), inside
  \<^verbatim>\<open>getConnsToClose\<close> (\<open>now\<close>) and when it records the trim (\<open>tEnd\<close>). It returns
  the connections it closed. The slot of \<^verbatim>\<open>trimRunningCh\<close> is taken on entry and
  released on every return.
\<close>

definition TrimOpenConns ::
  "(peerInfo list \<Rightarrow> peerInfo list) \<Rightarrow> PhoreConnMgr \<Rightarrow> time \<Rightarrow> time \<Rightarrow> time
     \<Rightarrow> error + (conn list \<times> PhoreConnMgr)" where
  "TrimOpenConns srt cm tSince now tEnd =
     (if trimRunning cm then Inr ([], cm)
      else if tSince - lastTrim cm < silencePeriod cm then Inr ([], cm)
      else case getConnsToClose srt cm now of
             Inl e \<Rightarrow> Inl e
           | Inr (closed, cm') \<Rightarrow> Inr (closed, cm'\<lparr>lastTrim := tEnd\<rparr>))"

section \<open>Invariants of the registry\<close>

text \<open>
  The records of a shard have distinct keys; a record lives in the shard of its key's
  last byte and carries its key; its connection map has distinct keys, all of them
  connections to that peer; and it is temporary exactly when it holds no connection.
\<close>

definition recKeyOk :: "8 word \<Rightarrow> peer_id \<Rightarrow> peerInfo \<Rightarrow> bool" where
  "recKeyOk b k pinf \<longleftrightarrow> k \<noteq> [] \<and> last k = b \<and> id' pinf = k"

definition recConnsOk :: "peer_id \<Rightarrow> peerInfo \<Rightarrow> bool" where
  "recConnsOk k pinf \<longleftrightarrow>
     distinct (map fst (conns pinf)) \<and> (\<forall>c \<in> fst ` set (conns pinf). RemotePeer c = k) \<and>
     (temp pinf \<longleftrightarrow> conns pinf = [])"

definition registryInv :: "PhoreConnMgr \<Rightarrow> bool" where
  "registryInv cm \<longleftrightarrow>
     (\<forall>b. distinct (map fst (segments cm b)) \<and>
          (\<forall>(k, pinf) \<in> set (segments cm b). recKeyOk b k pinf \<and> recConnsOk k pinf))"

text \<open>
  A weaker invariant: a temporary record holds no connection. \<^verbatim>\<open>tagInfoFor\<close> creates it
  empty, and \<^verbatim>\<open>Connected\<close> clears the flag before it stores a connection.
\<close>

definition tempNoConns :: "PhoreConnMgr \<Rightarrow> bool" where
  "tempNoConns cm \<longleftrightarrow>
     (\<forall>b. \<forall>(k, pinf) \<in> set (segments cm b). temp pinf \<longrightarrow> conns pinf = [])"

text \<open>
  The value of a record is the sum of its tags, and the tag map has distinct keys.
\<close>

definition recValueOk :: "peerInfo \<Rightarrow> bool" where
  "recValueOk pinf \<longleftrightarrow>
     distinct (map fst (tags pinf)) \<and> value' pinf = sum_list (map snd (tags pinf))"

definition valueInv :: "PhoreConnMgr \<Rightarrow> bool" where
  "valueInv cm \<longleftrightarrow> (\<forall>b. \<forall>(k, pinf) \<in> set (segments cm b). recValueOk pinf)"

text \<open>The connection handles held by the records that are not temporary.\<close>

definition liveOf :: "peerInfo \<Rightarrow> nat" where
  "liveOf pinf = (if temp pinf then 0 else length (conns pinf))"

definition liveConnsOf :: "segment \<Rightarrow> nat" where
  "liveConnsOf s = sum_list (map (\<lambda>(k, pinf). liveOf pinf) s)"

definition liveConns :: "PhoreConnMgr \<Rightarrow> nat" where
  "liveConns cm = sum_list (map (\<lambda>b. liveConnsOf (segments cm b)) allShards)"

definition countInv :: "PhoreConnMgr \<Rightarrow> bool" where
  "countInv cm \<longleftrightarrow> connCount cm = of_nat (liveConns cm)"

section \<open>Sequences of operations\<close>

text \<open>A sequence of tag operations, run until the first panic.\<close>

datatype tagOp =
    OpTagPeer peer_id string "64 word" time
  | OpUntagPeer peer_id string
  | OpUpsertTag peer_id string "64 word \<Rightarrow> 64 word" time

fun applyTagOp :: "PhoreConnMgr \<Rightarrow> tagOp \<Rightarrow> error + PhoreConnMgr" where
  "applyTagOp cm (OpTagPeer p tag val now) = TagPeer cm p tag val now"
| "applyTagOp cm (OpUntagPeer p tag) = UntagPeer cm p tag"
| "applyTagOp cm (OpUpsertTag p tag upsert now) = UpsertTag cm p tag upsert now"

fun applyTagOps :: "PhoreConnMgr \<Rightarrow> tagOp list \<Rightarrow> error + PhoreConnMgr" where
  "applyTagOps cm [] = Inr cm"
| "applyTagOps cm (e # es) =
     (case applyTagOp cm e of Inl err \<Rightarrow> Inl err | Inr cm' \<Rightarrow> applyTagOps cm' es)"

text \<open>A sequence of notifications, run until the first panic.\<close>

datatype notification = NConnected conn time time | NDisconnected conn

fun notify :: "PhoreConnMgr \<Rightarrow> notification \<Rightarrow> error + PhoreConnMgr" where
  "notify cm (NConnected c tSeen tConn) = Connected cm c tSeen tConn"
| "notify cm (NDisconnected c) = Disconnected cm c"

fun notifyAll :: "PhoreConnMgr \<Rightarrow> notification list \<Rightarrow> error + PhoreConnMgr" where
  "notifyAll cm [] = Inr cm"
| "notifyAll cm (e # es) =
     (case notify cm e of Inl err \<Rightarrow> Inl err | Inr cm' \<Rightarrow> notifyAll cm' es)"

text \<open>
  The states that a manager goes through when its operations run one after the other,
  with any clock readings and any sort that meets the contract of \<^verbatim>\<open>sort.Slice\<close>. All
  of them satisfy the three invariants above (lemma \<open>reachable_invariants\<close>).
\<close>

inductive reachable :: "PhoreConnMgr \<Rightarrow> bool" where
  reach_new: "reachable (NewConnManager low hi grace ps mins)"
| reach_TagPeer: "reachable cm \<Longrightarrow> TagPeer cm p tag val now = Inr cm' \<Longrightarrow> reachable cm'"
| reach_UntagPeer: "reachable cm \<Longrightarrow> UntagPeer cm p tag = Inr cm' \<Longrightarrow> reachable cm'"
| reach_UpsertTag: "reachable cm \<Longrightarrow> UpsertTag cm p tag upsert now = Inr cm' \<Longrightarrow> reachable cm'"
| reach_Connected: "reachable cm \<Longrightarrow> Connected cm c tSeen tConn = Inr cm' \<Longrightarrow> reachable cm'"
| reach_Disconnected: "reachable cm \<Longrightarrow> Disconnected cm c = Inr cm' \<Longrightarrow> reachable cm'"
| reach_Protect: "reachable cm \<Longrightarrow> reachable (Protect cm p tag)"
| reach_Unprotect: "reachable cm \<Longrightarrow> reachable (snd (Unprotect cm p tag))"
| reach_Trim: "reachable cm \<Longrightarrow> sortSliceSpec srt \<Longrightarrow>
     TrimOpenConns srt cm tSince now tEnd = Inr (closed, cm') \<Longrightarrow> reachable cm'"

section \<open>What a trim pass selects and leaves\<close>

text \<open>All records of the registry, in the order in which the trim scans them.\<close>

definition allRecords :: "PhoreConnMgr \<Rightarrow> (peer_id \<times> peerInfo) list" where
  "allRecords cm = concat (map (segments cm) allShards)"



text \<open>
  The peers that support a protocol according to the peerstore, the connected ones
  among the records of the registry, and those of them that keep all their connections
  when the connections \<open>sel\<close> are closed.
\<close>

definition supports :: "PhoreConnMgr \<Rightarrow> string \<Rightarrow> peer_id \<Rightarrow> bool" where
  "supports cm proto p =
     (case peerstore cm p of None \<Rightarrow> False | Some protos \<Rightarrow> proto \<in> set protos)"

definition connectedSupporters :: "PhoreConnMgr \<Rightarrow> string \<Rightarrow> (peer_id \<times> peerInfo) list" where
  "connectedSupporters cm proto =
     filter (\<lambda>(k, pinf). conns pinf \<noteq> [] \<and> supports cm proto k) (allRecords cm)"

definition untouched :: "conn list \<Rightarrow> peer_id \<times> peerInfo \<Rightarrow> bool" where
  "untouched sel = (\<lambda>(k, pinf). list_all (\<lambda>c. c \<notin> set sel) (map fst (conns pinf)))"

definition remainingSupporters ::
  "PhoreConnMgr \<Rightarrow> string \<Rightarrow> conn list \<Rightarrow> (peer_id \<times> peerInfo) list" where
  "remainingSupporters cm proto sel = filter (untouched sel) (connectedSupporters cm proto)"

text \<open>
  The invariant of the scan for a protocol with minimum \<open>m\<close>: of the \<open>sp\<close> supporters
  scanned so far, \<open>r\<close> were not made candidates; either that is already \<open>m\<close> of them, or it
  is all of them and the counter of the protocol is at most \<open>r\<close>.
\<close>

definition quotaInv :: "64 word \<Rightarrow> 64 word \<Rightarrow> nat \<Rightarrow> nat \<Rightarrow> bool" where
  "quotaInv m cnt r sp \<longleftrightarrow> nat (sint m) \<le> r \<or> (unat cnt \<le> r \<and> sp = r)"

section \<open>Example states\<close>

text \<open>One peer, in shard 7, with one connection; the last trim ended at instant 100.\<close>

definition exampleMgr :: PhoreConnMgr where
  "exampleMgr =
     (NewConnManager 1 2 0 (\<lambda>_. Some []) Map.empty)
       \<lparr>segments := (\<lambda>_. [])
          (7 := [([1, 7], \<lparr>id' = [1, 7], tags = [], value' = 0, temp = False,
                           conns = [(Conn [1, 7] ''a'' 1, 3)], firstSeen = 3\<rparr>)]),
        connCount := 1, lastTrim := 100\<rparr>"

text \<open>Three tag operations on one peer, and the state they lead to.\<close>

definition exampleTagOps :: "tagOp list" where
  "exampleTagOps =
     [OpTagPeer [1, 7] ''a'' 5 0, OpUpsertTag [1, 7] ''b'' (\<lambda>v. v + 2) 1, OpUntagPeer [1, 7] ''a'']"

definition exampleTagged :: PhoreConnMgr where
  "exampleTagged =
     (NewConnManager 1 2 0 (\<lambda>_. Some []) Map.empty)
       \<lparr>segments := (\<lambda>_. [])
          (7 := [([1, 7], \<lparr>id' = [1, 7], tags = [(''b'', 2)], value' = 2, temp = True,
                           conns = [], firstSeen = 0\<rparr>)])\<rparr>"

text \<open>Two peers connect and the first disconnects; the state this leads to.\<close>

definition exampleNotifications :: "notification list" where
  "exampleNotifications =
     [NConnected (Conn [1, 7] ''a'' 1) 1 2, NConnected (Conn [2, 7] ''b'' 2) 3 4,
      NDisconnected (Conn [1, 7] ''a'' 1)]"

definition exampleNotified :: PhoreConnMgr where
  "exampleNotified =
     (NewConnManager 1 2 0 (\<lambda>_. Some []) Map.empty)
       \<lparr>segments := (\<lambda>_. [])
          (7 := [([2, 7], \<lparr>id' = [2, 7], tags = [], value' = 0, temp = False,
                           conns = [(Conn [2, 7] ''b'' 2, 4)], firstSeen = 3\<rparr>)]),
        connCount := 1\<rparr>"

text \<open>
  Two peers in shard 7 with one connection each, values 1 and 5, low watermark 1,
  grace period 10; the peer of value 1 was first seen at instant 95, the other at 0.
\<close>

definition exampleTwo :: PhoreConnMgr where
  "exampleTwo =
     (NewConnManager 1 2 10 (\<lambda>_. Some []) Map.empty)
       \<lparr>segments := (\<lambda>_. [])
          (7 := [([1, 7], \<lparr>id' = [1, 7], tags = [(''t'', 1)], value' = 1, temp = False,
                           conns = [(Conn [1, 7] ''a'' 1, 96)], firstSeen = 95\<rparr>),
                 ([2, 7], \<lparr>id' = [2, 7], tags = [(''t'', 5)], value' = 5, temp = False,
                           conns = [(Conn [2, 7] ''b'' 2, 1)], firstSeen = 0\<rparr>)]),
        connCount := 2\<rparr>"




text \<open>
  The state \<open>exampleTwo\<close> where every peer supports the protocol \<open>/p/1\<close>, which has
  minimum 1.
\<close>

definition exampleQuota :: PhoreConnMgr where
  "exampleQuota =
     exampleTwo\<lparr>peerstore := (\<lambda>_. Some [''/p/1'']),
                minimumPeersForProtocol := [''/p/1'' \<mapsto> 1]\<rparr>"

text \<open>
  A temporary record without connections, scanned first, and a peer with two
  connections; both support the protocol \<open>/p/1\<close>, which has minimum 1. The low
  watermark is 1 and the grace period 0.
\<close>

definition exampleProvisional :: PhoreConnMgr where
  "exampleProvisional =
     (NewConnManager 1 1 0 (\<lambda>_. Some [''/p/1'']) [''/p/1'' \<mapsto> 1])
       \<lparr>segments := (\<lambda>_. [])
          (7 := [([1, 7], \<lparr>id' = [1, 7], tags = [(''t'', 1)], value' = 1, temp = True,
                           conns = [], firstSeen = 0\<rparr>),
                 ([2, 7], \<lparr>id' = [2, 7], tags = [(''t'', 5)], value' = 5, temp = False,
                           conns = [(Conn [2, 7] ''b'' 1, 1), (Conn [2, 7] ''c'' 2, 2)],
                           firstSeen = 1\<rparr>)]),
        connCount := 2\<rparr>"

section \<open>Protection registry: results\<close>

text \<open>
  C3, as amended. When the peer is absent from the protection registry, \<^verbatim>\<open>Unprotect\<close>
  leaves the registry unchanged and returns false. When the peer is present with a
  non-empty reason set that does not contain the reason, \<^verbatim>\<open>Unprotect\<close> leaves the
  registry unchanged and returns true: the peer is still protected.
\<close>

theorem Unprotect_no_match:
  "(protected cm p = None \<longrightarrow> Unprotect cm p tag = (False, cm)) \<and>
   (protected cm p = Some ts \<and> tag \<notin> ts \<and> ts \<noteq> {} \<longrightarrow> Unprotect cm p tag = (True, cm))"
  by (auto simp: Unprotect_def fun_upd_idem)

theorem Unprotect_no_match_witness:
  "Unprotect (NewConnManager 1 2 0 (\<lambda>_. None) Map.empty) [1] ''a''
     = (False, NewConnManager 1 2 0 (\<lambda>_. None) Map.empty) \<and>
   Unprotect (Protect (NewConnManager 1 2 0 (\<lambda>_. None) Map.empty) [1] ''a'') [1] ''b''
     = (True, Protect (NewConnManager 1 2 0 (\<lambda>_. None) Map.empty) [1] ''a'')"
  using Unprotect_no_match [of "NewConnManager 1 2 0 (\<lambda>_. None) Map.empty" "[1]" "''a''" "{}"]
    Unprotect_no_match [of "Protect (NewConnManager 1 2 0 (\<lambda>_. None) Map.empty) [1] ''a''"
      "[1]" "''b''" "{''a''}"]
  by (simp add: NewConnManager_def Protect_def)

text \<open>
  C3 as stated fails: a peer protected for reason \<open>a\<close> stays protected when reason \<open>b\<close>
  is removed, and \<^verbatim>\<open>Unprotect\<close> reports that by returning true.
\<close>

theorem Unprotect_no_match_counterexample:
  "protected (Protect (NewConnManager 1 2 0 (\<lambda>_. None) Map.empty) [1] ''a'') [1] = Some {''a''} \<and>
   ''b'' \<notin> {''a''} \<and>
   fst (Unprotect (Protect (NewConnManager 1 2 0 (\<lambda>_. None) Map.empty) [1] ''a'') [1] ''b'') = True"
  by (simp add: NewConnManager_def Protect_def Unprotect_def)

section \<open>Shard selection, silence period and stale notifications\<close>

lemma segments_get_iff: "segments_get p = None \<longleftrightarrow> p = []"
  by (simp add: segments_get_def)

lemma segments_get_last: "p \<noteq> [] \<Longrightarrow> segments_get p = Some (last p)"
  by (simp add: segments_get_def last_conv_nth)

lemma TagPeer_panic: "TagPeer cm p tag val now = Inl IndexOutOfRange \<longleftrightarrow> p = []"
  by (cases "p = []") (simp_all add: segments_get_def TagPeer_def Let_def split: prod.splits)

lemma UntagPeer_panic: "UntagPeer cm p tag = Inl IndexOutOfRange \<longleftrightarrow> p = []"
  by (cases "p = []") (simp_all add: segments_get_def UntagPeer_def Let_def split: option.splits)

lemma UpsertTag_panic: "UpsertTag cm p tag f now = Inl IndexOutOfRange \<longleftrightarrow> p = []"
  by (cases "p = []") (simp_all add: segments_get_def UpsertTag_def Let_def split: prod.splits)

lemma GetTagInfo_panic: "GetTagInfo cm p = Inl IndexOutOfRange \<longleftrightarrow> p = []"
  by (cases "p = []") (simp_all add: segments_get_def GetTagInfo_def Let_def split: option.splits)

lemma Connected_panic: "Connected cm c t1 t2 = Inl IndexOutOfRange \<longleftrightarrow> RemotePeer c = []"
  by (cases "RemotePeer c = []")
    (simp_all add: segments_get_def Connected_def Let_def split: option.splits prod.splits)

lemma Disconnected_panic: "Disconnected cm c = Inl IndexOutOfRange \<longleftrightarrow> RemotePeer c = []"
  by (cases "RemotePeer c = []")
    (simp_all add: segments_get_def Disconnected_def Let_def split: option.splits)

text \<open>
  C10. Every per-peer operation picks the shard by the last byte of the identifier.
  The index exists exactly when the identifier is not empty: then it is the last
  byte, and otherwise the lookup is out of range and the operation panics. So
  \<^verbatim>\<open>TagPeer\<close>, \<^verbatim>\<open>UntagPeer\<close>, \<^verbatim>\<open>UpsertTag\<close>, \<^verbatim>\<open>GetTagInfo\<close>, \<^verbatim>\<open>Connected\<close> and
  \<^verbatim>\<open>Disconnected\<close> return normally only for identifiers of length at least one.
\<close>

theorem shard_index_defined_iff:
  "(segments_get p = None \<longleftrightarrow> p = []) \<and>
   (p \<noteq> [] \<longrightarrow> segments_get p = Some (last p)) \<and>
   (TagPeer cm p tag val now = Inl IndexOutOfRange \<longleftrightarrow> p = []) \<and>
   (UntagPeer cm p tag = Inl IndexOutOfRange \<longleftrightarrow> p = []) \<and>
   (UpsertTag cm p tag f now = Inl IndexOutOfRange \<longleftrightarrow> p = []) \<and>
   (GetTagInfo cm p = Inl IndexOutOfRange \<longleftrightarrow> p = []) \<and>
   (Connected cm c t1 t2 = Inl IndexOutOfRange \<longleftrightarrow> RemotePeer c = []) \<and>
   (Disconnected cm c = Inl IndexOutOfRange \<longleftrightarrow> RemotePeer c = [])"
  unfolding segments_get_iff TagPeer_panic UntagPeer_panic UpsertTag_panic
    GetTagInfo_panic Connected_panic Disconnected_panic
  by (simp add: segments_get_last)

text \<open>
  C9. A call of \<^verbatim>\<open>TrimOpenConns\<close> that starts less than the silence period after the
  recorded end of the previous trim does nothing: it closes no connection and returns
  the state as it was, records and last-trim time included.
\<close>

theorem TrimOpenConns_silence:
  "tSince - lastTrim cm < silencePeriod cm \<Longrightarrow> TrimOpenConns srt cm tSince now tEnd = Inr ([], cm)"
  by (simp add: TrimOpenConns_def)

lemma Connected_tracked:
  assumes "tempNoConns cm" "RemotePeer c \<noteq> []"
    "map_of (segments cm (last (RemotePeer c))) (RemotePeer c) = Some pinf"
    "map_of (conns pinf) c \<noteq> None"
  shows "Connected cm c t1 t2 = Inr cm"
proof -
  have "(RemotePeer c, pinf) \<in> set (segments cm (last (RemotePeer c)))"
    using assms(3) by (rule map_of_SomeD)
  with assms(1) have "temp pinf \<longrightarrow> conns pinf = []"
    by (fastforce simp: tempNoConns_def)
  with assms(4) have "\<not> temp pinf" by auto
  with assms show ?thesis
    by (simp add: Connected_def segments_get_last Let_def)
qed

lemma Disconnected_unknown_peer:
  "RemotePeer c \<noteq> [] \<Longrightarrow> map_of (segments cm (last (RemotePeer c))) (RemotePeer c) = None
     \<Longrightarrow> Disconnected cm c = Inr cm"
  by (simp add: Disconnected_def segments_get_last Let_def)

lemma Disconnected_unknown_conn:
  "RemotePeer c \<noteq> [] \<Longrightarrow> map_of (segments cm (last (RemotePeer c))) (RemotePeer c) = Some pinf
     \<Longrightarrow> map_of (conns pinf) c = None \<Longrightarrow> Disconnected cm c = Inr cm"
  by (simp add: Disconnected_def segments_get_last Let_def)

text \<open>
  C6. In a state where temporary records hold no connections (every reachable state
  is one, lemma \<open>reachable_tempNoConns\<close>), a \<^verbatim>\<open>Connected\<close> notification for a handle already tracked
  for its peer, and a \<^verbatim>\<open>Disconnected\<close> notification for an unknown peer or for a handle
  not tracked for that peer, return the state unchanged, the counter included.
\<close>

theorem stale_notifications_noop:
  "(tempNoConns cm \<and> RemotePeer c \<noteq> [] \<and>
      map_of (segments cm (last (RemotePeer c))) (RemotePeer c) = Some pinf \<and>
      map_of (conns pinf) c \<noteq> None
      \<longrightarrow> Connected cm c t1 t2 = Inr cm) \<and>
   (RemotePeer c \<noteq> [] \<and> map_of (segments cm (last (RemotePeer c))) (RemotePeer c) = None
      \<longrightarrow> Disconnected cm c = Inr cm) \<and>
   (RemotePeer c \<noteq> [] \<and>
      map_of (segments cm (last (RemotePeer c))) (RemotePeer c) = Some pinf \<and>
      map_of (conns pinf) c = None
      \<longrightarrow> Disconnected cm c = Inr cm)"
proof (intro conjI impI)
  assume "tempNoConns cm \<and> RemotePeer c \<noteq> [] \<and>
      map_of (segments cm (last (RemotePeer c))) (RemotePeer c) = Some pinf \<and>
      map_of (conns pinf) c \<noteq> None"
  then show "Connected cm c t1 t2 = Inr cm"
    using Connected_tracked [of cm c pinf t1 t2] by simp
next
  assume "RemotePeer c \<noteq> [] \<and> map_of (segments cm (last (RemotePeer c))) (RemotePeer c) = None"
  then show "Disconnected cm c = Inr cm"
    using Disconnected_unknown_peer [of c cm] by simp
next
  assume "RemotePeer c \<noteq> [] \<and>
      map_of (segments cm (last (RemotePeer c))) (RemotePeer c) = Some pinf \<and>
      map_of (conns pinf) c = None"
  then show "Disconnected cm c = Inr cm"
    using Disconnected_unknown_conn [of c cm pinf] by simp
qed


theorem shard_index_defined_iff_witness:
  "segments_get [] = None \<and> segments_get [1, 7] = Some 7 \<and>
   TagPeer exampleMgr [] ''t'' 5 0 = Inl IndexOutOfRange \<and>
   TagPeer exampleMgr [1, 7] ''t'' 5 0 \<noteq> Inl IndexOutOfRange \<and>
   Connected exampleMgr (Conn [] ''a'' 1) 0 0 = Inl IndexOutOfRange \<and>
   Disconnected exampleMgr (Conn [1, 7] ''a'' 1) \<noteq> Inl IndexOutOfRange"
  using shard_index_defined_iff [of "[]" exampleMgr "''t''" 5 0 id "Conn [] ''a'' 1" 0 0]
    shard_index_defined_iff [of "[1, 7]" exampleMgr "''t''" 5 0 id "Conn [1, 7] ''a'' 1" 0 0]
  by simp

theorem TrimOpenConns_silence_witness:
  "(105::int) - lastTrim exampleMgr < silencePeriod exampleMgr \<and>
   TrimOpenConns sortSlice exampleMgr 105 106 107 = Inr ([], exampleMgr)"
proof -
  have h: "(105::int) - lastTrim exampleMgr < silencePeriod exampleMgr"
    by (simp add: exampleMgr_def NewConnManager_def SilencePeriod_def)
  show ?thesis
    using h TrimOpenConns_silence [OF h, of sortSlice 106 107] by simp
qed

theorem stale_notifications_noop_witness:
  "Connected exampleMgr (Conn [1, 7] ''a'' 1) 5 6 = Inr exampleMgr \<and>
   Disconnected exampleMgr (Conn [2, 7] ''b'' 2) = Inr exampleMgr \<and>
   Disconnected exampleMgr (Conn [1, 7] ''a'' 3) = Inr exampleMgr"
  using stale_notifications_noop [of exampleMgr "Conn [1, 7] ''a'' 1"
      "\<lparr>id' = [1, 7], tags = [], value' = 0, temp = False,
        conns = [(Conn [1, 7] ''a'' 1, 3)], firstSeen = 3\<rparr>" 5 6]
    stale_notifications_noop [of exampleMgr "Conn [2, 7] ''b'' 2"
      "\<lparr>id' = [1, 7], tags = [], value' = 0, temp = False,
        conns = [(Conn [1, 7] ''a'' 1, 3)], firstSeen = 3\<rparr>" 5 6]
    stale_notifications_noop [of exampleMgr "Conn [1, 7] ''a'' 3"
      "\<lparr>id' = [1, 7], tags = [], value' = 0, temp = False,
        conns = [(Conn [1, 7] ''a'' 1, 3)], firstSeen = 3\<rparr>" 5 6]
  by (simp add: exampleMgr_def NewConnManager_def tempNoConns_def)

section \<open>Tag accounting: results\<close>

lemma set_update_cases: "x \<in> set (AList.update k v al) \<Longrightarrow> x = (k, v) \<or> x \<in> set al"
  by (induction al) (auto split: if_splits)

lemma sum_update:
  "distinct (map fst al) \<Longrightarrow>
     sum_list (map snd (AList.update k v al)) = sum_list (map snd al) + (v - lookup0 al k)"
proof (induction al)
  case Nil
  then show ?case by (simp add: lookup0_def)
next
  case (Cons a al)
  obtain k' v' where a: "a = (k', v')" by (cases a)
  show ?case
  proof (cases "k' = k")
    case True
    then show ?thesis using a by (simp add: lookup0_def)
  next
    case False
    then have "lookup0 (a # al) k = lookup0 al k" using a by (simp add: lookup0_def)
    with False a Cons show ?thesis by simp
  qed
qed

lemma sum_delete:
  "distinct (map fst al) \<Longrightarrow>
     sum_list (map snd (AList.delete k al)) = sum_list (map snd al) - lookup0 al k"
proof (induction al)
  case Nil
  then show ?case by (simp add: lookup0_def)
next
  case (Cons a al)
  obtain k' v' where a: "a = (k', v')" by (cases a)
  show ?case
  proof (cases "k' = k")
    case True
    with a Cons.prems have "k \<notin> fst ` set al" by auto
    then have "AList.delete k al = al" by simp
    with True a show ?thesis by (simp add: lookup0_def)
  next
    case False
    then have "lookup0 (a # al) k = lookup0 al k" using a by (simp add: lookup0_def)
    with False a Cons show ?thesis by simp
  qed
qed

lemma recValueOk_tag:
  "recValueOk pinf \<Longrightarrow>
     recValueOk (pinf\<lparr>value' := value' pinf + (v - lookup0 (tags pinf) tag),
                    tags := AList.update tag v (tags pinf)\<rparr>)"
  by (simp add: recValueOk_def distinct_update sum_update)

lemma recValueOk_untag:
  "recValueOk pinf \<Longrightarrow>
     recValueOk (pinf\<lparr>value' := value' pinf - lookup0 (tags pinf) tag,
                    tags := AList.delete tag (tags pinf)\<rparr>)"
  by (simp add: recValueOk_def distinct_delete sum_delete)

lemma recValueOk_fresh:
  "recValueOk \<lparr>id' = p, tags = [], value' = 0, temp = t, conns = [], firstSeen = now\<rparr>"
  by (simp add: recValueOk_def)

lemma tagInfoFor_ok:
  assumes "\<forall>(k, pinf) \<in> set s. recValueOk pinf" "tagInfoFor s p now = (pi, s1)"
  shows "recValueOk pi \<and> (\<forall>(k, pinf) \<in> set s1. recValueOk pinf)"
proof (cases "map_of s p")
  case None
  with assms(2) have pi: "pi = \<lparr>id' = p, tags = [], value' = 0, temp = True, conns = [], firstSeen = now\<rparr>"
    and s1: "s1 = AList.update p pi s"
    by (auto simp: tagInfoFor_def Let_def)
  have "recValueOk pi" unfolding pi by (rule recValueOk_fresh)
  moreover have "\<forall>(k, pinf) \<in> set s1. recValueOk pinf"
    using assms(1) \<open>recValueOk pi\<close> unfolding s1 by (auto dest: set_update_cases)
  ultimately show ?thesis by simp
next
  case (Some a)
  with assms(2) have "pi = a" "s1 = s" by (auto simp: tagInfoFor_def)
  moreover from Some have "(p, a) \<in> set s" by (rule map_of_SomeD)
  ultimately show ?thesis using assms(1) by auto
qed

lemma valueInv_shard_update:
  assumes "valueInv cm" "\<forall>(k, pinf) \<in> set s. recValueOk pinf"
  shows "valueInv (cm\<lparr>segments := (segments cm)(b := s)\<rparr>)"
  using assms by (auto simp: valueInv_def)

lemma valueInv_shard: "valueInv cm \<Longrightarrow> \<forall>(k, pinf) \<in> set (segments cm b). recValueOk pinf"
  by (simp add: valueInv_def)

lemma TagPeer_valueInv:
  assumes "valueInv cm" "TagPeer cm p tag val now = Inr cm'"
  shows "valueInv cm'"
proof -
  from assms(2) obtain b where b: "segments_get p = Some b"
    by (cases "segments_get p") (auto simp: TagPeer_def)
  obtain pi s where t: "tagInfoFor (segments cm b) p now = (pi, s)"
    by (cases "tagInfoFor (segments cm b) p now")
  from tagInfoFor_ok [OF valueInv_shard [OF assms(1)] t]
  have pi: "recValueOk pi" and s: "\<forall>(k, pinf) \<in> set s. recValueOk pinf" by simp_all
  let ?pi' = "pi\<lparr>value' := value' pi + (val - lookup0 (tags pi) tag),
                  tags := AList.update tag val (tags pi)\<rparr>"
  have "\<forall>(k, pinf) \<in> set (AList.update p ?pi' s). recValueOk pinf"
    using s recValueOk_tag [OF pi] by (auto dest: set_update_cases)
  from valueInv_shard_update [OF assms(1) this, of b]
  show ?thesis using assms(2) b t by (simp add: TagPeer_def)
qed

lemma UpsertTag_valueInv:
  assumes "valueInv cm" "UpsertTag cm p tag f now = Inr cm'"
  shows "valueInv cm'"
proof -
  from assms(2) obtain b where b: "segments_get p = Some b"
    by (cases "segments_get p") (auto simp: UpsertTag_def)
  obtain pi s where t: "tagInfoFor (segments cm b) p now = (pi, s)"
    by (cases "tagInfoFor (segments cm b) p now")
  from tagInfoFor_ok [OF valueInv_shard [OF assms(1)] t]
  have pi: "recValueOk pi" and s: "\<forall>(k, pinf) \<in> set s. recValueOk pinf" by simp_all
  let ?new = "f (lookup0 (tags pi) tag)"
  let ?pi' = "pi\<lparr>value' := value' pi + (?new - lookup0 (tags pi) tag),
                  tags := AList.update tag ?new (tags pi)\<rparr>"
  have "\<forall>(k, pinf) \<in> set (AList.update p ?pi' s). recValueOk pinf"
    using s recValueOk_tag [OF pi] by (auto dest: set_update_cases)
  from valueInv_shard_update [OF assms(1) this, of b]
  show ?thesis using assms(2) b t by (simp add: UpsertTag_def Let_def)
qed

lemma UntagPeer_valueInv:
  assumes "valueInv cm" "UntagPeer cm p tag = Inr cm'"
  shows "valueInv cm'"
proof -
  from assms(2) obtain b where b: "segments_get p = Some b"
    by (cases "segments_get p") (auto simp: UntagPeer_def)
  show ?thesis
  proof (cases "map_of (segments cm b) p")
    case None
    with assms b show ?thesis by (simp add: UntagPeer_def)
  next
    case (Some pi)
    then have "(p, pi) \<in> set (segments cm b)" by (rule map_of_SomeD)
    with valueInv_shard [OF assms(1), of b] have pi: "recValueOk pi" by auto
    let ?pi' = "pi\<lparr>value' := value' pi - lookup0 (tags pi) tag,
                    tags := AList.delete tag (tags pi)\<rparr>"
    have "\<forall>(k, pinf) \<in> set (AList.update p ?pi' (segments cm b)). recValueOk pinf"
      using valueInv_shard [OF assms(1), of b] recValueOk_untag [OF pi]
      by (auto dest: set_update_cases)
    from valueInv_shard_update [OF assms(1) this, of b]
    show ?thesis using assms(2) b Some by (simp add: UntagPeer_def Let_def)
  qed
qed

lemma applyTagOp_valueInv: "valueInv cm \<Longrightarrow> applyTagOp cm e = Inr cm' \<Longrightarrow> valueInv cm'"
  by (cases e) (auto intro: TagPeer_valueInv UntagPeer_valueInv UpsertTag_valueInv)

lemma applyTagOps_valueInv: "valueInv cm \<Longrightarrow> applyTagOps cm es = Inr cm' \<Longrightarrow> valueInv cm'"
proof (induction es arbitrary: cm)
  case Nil
  then show ?case by simp
next
  case (Cons e es)
  then show ?case
    by (cases "applyTagOp cm e") (auto dest: applyTagOp_valueInv)
qed

lemma NewConnManager_valueInv: "valueInv (NewConnManager low hi grace ps mins)"
  by (simp add: valueInv_def NewConnManager_def)

text \<open>
  C4. A fresh manager satisfies the invariant that in every record the cached value is
  the sum of the entries of the tag map (in Go's wrapping 64-bit arithmetic, as the
  code computes both); each of \<^verbatim>\<open>TagPeer\<close>, \<^verbatim>\<open>UntagPeer\<close> and \<^verbatim>\<open>UpsertTag\<close> preserves it;
  so after any finite sequence of these operations the value of every record equals
  the sum of its tags.
\<close>

theorem tag_value_consistency:
  "valueInv (NewConnManager low hi grace ps mins) \<and>
   (valueInv cm \<and> applyTagOp cm e = Inr cm1 \<longrightarrow> valueInv cm1) \<and>
   (valueInv cm \<and> applyTagOps cm es = Inr cm2 \<longrightarrow>
      (\<forall>b. \<forall>(k, pinf) \<in> set (segments cm2 b). value' pinf = sum_list (map snd (tags pinf))))"
proof (intro conjI impI)
  show "valueInv (NewConnManager low hi grace ps mins)" by (rule NewConnManager_valueInv)
next
  assume "valueInv cm \<and> applyTagOp cm e = Inr cm1"
  then show "valueInv cm1" using applyTagOp_valueInv by blast
next
  assume "valueInv cm \<and> applyTagOps cm es = Inr cm2"
  then have "valueInv cm2" using applyTagOps_valueInv by blast
  then show "\<forall>b. \<forall>(k, pinf) \<in> set (segments cm2 b). value' pinf = sum_list (map snd (tags pinf))"
    by (auto simp: valueInv_def recValueOk_def)
qed


theorem tag_value_consistency_witness:
  "applyTagOps (NewConnManager 1 2 0 (\<lambda>_. Some []) Map.empty) exampleTagOps = Inr exampleTagged \<and>
   map (\<lambda>(k, pinf). value' pinf) (segments exampleTagged 7)
     = map (\<lambda>(k, pinf). sum_list (map snd (tags pinf))) (segments exampleTagged 7)"
proof -
  have run: "applyTagOps (NewConnManager 1 2 0 (\<lambda>_. Some []) Map.empty) exampleTagOps
      = Inr exampleTagged"
    by (simp add: exampleTagOps_def exampleTagged_def NewConnManager_def TagPeer_def
        UpsertTag_def UntagPeer_def segments_get_def tagInfoFor_def lookup0_def Let_def)
  show ?thesis
    using run tag_value_consistency [of 1 2 0 "\<lambda>_. Some []" Map.empty
        "NewConnManager 1 2 0 (\<lambda>_. Some []) Map.empty" "OpUntagPeer [1, 7] ''a''"
        "NewConnManager 1 2 0 (\<lambda>_. Some []) Map.empty" exampleTagOps exampleTagged]
    by (simp add: exampleTagged_def)
qed

section \<open>Connection counter: results\<close>

lemma distinct_allShards: "distinct allShards"
proof -
  have "inj_on (of_nat :: nat \<Rightarrow> 8 word) {0..<256}"
  proof (rule inj_onI)
    fix x y :: nat
    assume "x \<in> {0..<256}" "y \<in> {0..<256}" "(of_nat x :: 8 word) = of_nat y"
    then have "unat (of_nat x :: 8 word) = unat (of_nat y :: 8 word)" by simp
    with \<open>x \<in> {0..<256}\<close> \<open>y \<in> {0..<256}\<close> show "x = y"
      by (simp add: unat_of_nat)
  qed
  then show ?thesis by (simp add: allShards_def distinct_map)
qed

lemma set_allShards: "b \<in> set allShards"
proof -
  have "unat b < 256" using unsigned_less [of b, where 'a = nat] by simp
  moreover have "b = of_nat (unat b)" by simp
  ultimately show ?thesis unfolding allShards_def
    by (metis (no_types, lifting) atLeastLessThan_iff image_eqI list.set_map set_upt zero_le)
qed

lemma sum_list_change_one:
  fixes g h :: "'a \<Rightarrow> nat"
  assumes "\<forall>x. x \<noteq> b \<longrightarrow> h x = g x"
  shows "distinct xs \<Longrightarrow> b \<in> set xs \<Longrightarrow>
    sum_list (map h xs) + g b = sum_list (map g xs) + h b"
proof (induction xs)
  case Nil
  then show ?case by simp
next
  case (Cons x xs)
  show ?case
  proof (cases "x = b")
    case True
    with Cons.prems have "b \<notin> set xs" by simp
    with assms have "\<forall>x \<in> set xs. h x = g x" by auto
    then have "sum_list (map h xs) = sum_list (map g xs)" by (induction xs) auto
    with True show ?thesis by simp
  next
    case False
    with Cons have "sum_list (map h xs) + g b = sum_list (map g xs) + h b" by simp
    moreover from False assms have "h x = g x" by simp
    ultimately show ?thesis by simp
  qed
qed

lemma liveConns_shard_update:
  "liveConns (cm\<lparr>segments := (segments cm)(b := s)\<rparr>) + liveConnsOf (segments cm b)
     = liveConns cm + liveConnsOf s"
proof -
  have "\<forall>x. x \<noteq> b \<longrightarrow>
      liveConnsOf (((segments cm)(b := s)) x) = liveConnsOf (segments cm x)"
    by simp
  from sum_list_change_one [OF this distinct_allShards set_allShards]
  show ?thesis by (simp add: liveConns_def)
qed

lemma liveConnsOf_update_new:
  "map_of s k = None \<Longrightarrow> liveConnsOf (AList.update k v s) = liveConnsOf s + liveOf v"
  by (induction s) (auto simp: liveConnsOf_def split: if_splits)

lemma liveConnsOf_update_old:
  "map_of s k = Some old \<Longrightarrow>
     liveConnsOf (AList.update k v s) + liveOf old = liveConnsOf s + liveOf v"
  by (induction s) (auto simp: liveConnsOf_def split: if_splits)

lemma liveConnsOf_delete:
  "distinct (map fst s) \<Longrightarrow> map_of s k = Some old \<Longrightarrow>
     liveConnsOf (AList.delete k s) + liveOf old = liveConnsOf s"
proof (induction s)
  case Nil
  then show ?case by simp
next
  case (Cons a s)
  obtain k' v' where a: "a = (k', v')" by (cases a)
  show ?case
  proof (cases "k' = k")
    case True
    with a Cons.prems have "k \<notin> fst ` set s" "old = v'" by auto
    then have "AList.delete k s = s" by simp
    with True a \<open>old = v'\<close> show ?thesis by (simp add: liveConnsOf_def)
  next
    case False
    with a Cons show ?thesis by (simp add: liveConnsOf_def)
  qed
qed

lemma length_update_new: "map_of al c = None \<Longrightarrow> length (AList.update c t al) = Suc (length al)"
  by (induction al) (auto split: if_splits)

lemma length_delete_old:
  "distinct (map fst al) \<Longrightarrow> map_of al c = Some t \<Longrightarrow> Suc (length (AList.delete c al)) = length al"
proof (induction al)
  case Nil
  then show ?case by simp
next
  case (Cons a al)
  obtain k' v' where a: "a = (k', v')" by (cases a)
  show ?case
  proof (cases "k' = c")
    case True
    with a Cons.prems have "c \<notin> fst ` set al" by auto
    then have "AList.delete c al = al" by simp
    with True a show ?thesis by simp
  next
    case False
    with a Cons show ?thesis by simp
  qed
qed

lemma registryInv_shardD:
  "registryInv cm \<Longrightarrow> distinct (map fst (segments cm b))"
  "registryInv cm \<Longrightarrow> (k, pinf) \<in> set (segments cm b) \<Longrightarrow> recKeyOk b k pinf \<and> recConnsOk k pinf"
  by (auto simp: registryInv_def)

lemma registryInv_shard:
  assumes "registryInv cm" "distinct (map fst s)"
    "\<forall>(k, pinf) \<in> set s. recKeyOk b k pinf \<and> recConnsOk k pinf"
  shows "registryInv (cm\<lparr>segments := (segments cm)(b := s)\<rparr>)"
  using assms by (auto simp: registryInv_def)

lemma registryInv_connCount [simp]: "registryInv (cm\<lparr>connCount := n\<rparr>) = registryInv cm"
  by (simp add: registryInv_def)

lemma liveConns_connCount [simp]: "liveConns (cm\<lparr>connCount := n\<rparr>) = liveConns cm"
  by (simp add: liveConns_def)

lemma registryInv_update:
  assumes "registryInv cm" "recKeyOk b p v" "recConnsOk p v"
  shows "registryInv (cm\<lparr>segments := (segments cm)(b := AList.update p v (segments cm b))\<rparr>)"
proof (rule registryInv_shard [OF assms(1)])
  show "distinct (map fst (AList.update p v (segments cm b)))"
    using registryInv_shardD(1) [OF assms(1)] by (rule distinct_update)
  show "\<forall>(k, pinf) \<in> set (AList.update p v (segments cm b)). recKeyOk b k pinf \<and> recConnsOk k pinf"
    using registryInv_shardD(2) [OF assms(1)] assms(2,3) by (auto dest: set_update_cases)
qed

lemma set_delete_subset: "set (AList.delete k al) \<subseteq> set al"
  by (induction al) auto

lemma registryInv_delete:
  assumes "registryInv cm"
  shows "registryInv (cm\<lparr>segments := (segments cm)(b := AList.delete p (segments cm b))\<rparr>)"
proof (rule registryInv_shard [OF assms(1)])
  show "distinct (map fst (AList.delete p (segments cm b)))"
    using registryInv_shardD(1) [OF assms(1)] by (rule distinct_delete)
  show "\<forall>(k, pinf) \<in> set (AList.delete p (segments cm b)). recKeyOk b k pinf \<and> recConnsOk k pinf"
    using registryInv_shardD(2) [OF assms(1)] set_delete_subset [of p "segments cm b"] by auto
qed

lemma liveConns_update:
  assumes "liveOf v = n + (case map_of (segments cm b) p of None \<Rightarrow> 0 | Some old \<Rightarrow> liveOf old)"
  shows "liveConns (cm\<lparr>segments := (segments cm)(b := AList.update p v (segments cm b))\<rparr>)
           = liveConns cm + n"
proof -
  have "liveConnsOf (AList.update p v (segments cm b)) = liveConnsOf (segments cm b) + n"
  proof (cases "map_of (segments cm b) p")
    case None
    with assms liveConnsOf_update_new [OF None, of v] show ?thesis by simp
  next
    case (Some old)
    with assms liveConnsOf_update_old [OF Some, of v] show ?thesis by simp
  qed
  with liveConns_shard_update [of cm b "AList.update p v (segments cm b)"]
  show ?thesis by simp
qed

lemma Connected_cases:
  assumes inv: "registryInv cm" and res: "Connected cm c tSeen tConn = Inr cm'"
  shows "cm' = cm \<or>
     (\<exists>v. cm' = cm\<lparr>segments := (segments cm)
                     (last (RemotePeer c) := AList.update (RemotePeer c) v
                        (segments cm (last (RemotePeer c)))),
                   connCount := connCount cm + 1\<rparr> \<and>
          recKeyOk (last (RemotePeer c)) (RemotePeer c) v \<and> recConnsOk (RemotePeer c) v \<and>
          liveOf v = 1 + (case map_of (segments cm (last (RemotePeer c))) (RemotePeer c) of
                            None \<Rightarrow> 0 | Some old \<Rightarrow> liveOf old))"
proof -
  let ?p = "RemotePeer c"
  let ?b = "last ?p"
  let ?s = "segments cm ?b"
  from res have ne: "?p \<noteq> []"
    by (auto simp: Connected_def segments_get_def Let_def split: if_splits)
  then have get: "segments_get ?p = Some ?b" by (rule segments_get_last)
  show ?thesis
  proof (cases "map_of ?s ?p")
    case None
    let ?v = "\<lparr>id' = ?p, tags = [], value' = 0, temp = False, conns = [(c, tConn)],
               firstSeen = tSeen\<rparr>"
    from res get None have "cm' = cm\<lparr>segments := (segments cm)(?b := AList.update ?p ?v ?s),
        connCount := connCount cm + 1\<rparr>"
      by (simp add: Connected_def Let_def)
    moreover have "recKeyOk ?b ?p ?v" using ne by (simp add: recKeyOk_def)
    moreover have "recConnsOk ?p ?v" by (simp add: recConnsOk_def)
    moreover have "liveOf ?v = 1" by (simp add: liveOf_def)
    ultimately show ?thesis using None by auto
  next
    case (Some pi)
    then have mem: "(?p, pi) \<in> set ?s" by (rule map_of_SomeD)
    from registryInv_shardD(2) [OF inv mem]
    have key: "recKeyOk ?b ?p pi" and cn: "recConnsOk ?p pi" by simp_all
    show ?thesis
    proof (cases "temp pi")
      case True
      with cn have empty: "conns pi = []" by (simp add: recConnsOk_def)
      let ?v = "pi\<lparr>temp := False, firstSeen := tSeen, conns := [(c, tConn)]\<rparr>"
      from res get Some True empty
      have "cm' = cm\<lparr>segments := (segments cm)(?b := AList.update ?p ?v ?s),
          connCount := connCount cm + 1\<rparr>"
        by (simp add: Connected_def Let_def)
      moreover have "recKeyOk ?b ?p ?v" using key by (simp add: recKeyOk_def)
      moreover have "recConnsOk ?p ?v" by (simp add: recConnsOk_def)
      moreover have "liveOf ?v = 1 + liveOf pi" using True by (simp add: liveOf_def)
      ultimately show ?thesis using Some by auto
    next
      case False
      show ?thesis
      proof (cases "map_of (conns pi) c")
        case (Some t)
        with res get \<open>map_of ?s ?p = Some pi\<close> False have "cm' = cm"
          by (simp add: Connected_def Let_def)
        then show ?thesis by simp
      next
        case None
        let ?v = "pi\<lparr>conns := AList.update c tConn (conns pi)\<rparr>"
        from res get \<open>map_of ?s ?p = Some pi\<close> False None
        have "cm' = cm\<lparr>segments := (segments cm)(?b := AList.update ?p ?v ?s),
            connCount := connCount cm + 1\<rparr>"
          by (simp add: Connected_def Let_def)
        moreover have "recKeyOk ?b ?p ?v" using key by (simp add: recKeyOk_def)
        moreover have "recConnsOk ?p ?v"
          using cn False by (auto simp: recConnsOk_def distinct_update dom_update)
        moreover have "liveOf ?v = 1 + liveOf pi"
          using False length_update_new [OF None, of tConn] by (simp add: liveOf_def)
        ultimately show ?thesis using \<open>map_of ?s ?p = Some pi\<close> by auto
      qed
    qed
  qed
qed

lemma Connected_inv:
  assumes "registryInv cm" "countInv cm" "Connected cm c tSeen tConn = Inr cm'"
  shows "registryInv cm' \<and> countInv cm'"
proof -
  from Connected_cases [OF assms(1,3)]
  show ?thesis
  proof
    assume "cm' = cm"
    with assms show ?thesis by simp
  next
    assume "\<exists>v. cm' = cm\<lparr>segments := (segments cm)
                     (last (RemotePeer c) := AList.update (RemotePeer c) v
                        (segments cm (last (RemotePeer c)))),
                   connCount := connCount cm + 1\<rparr> \<and>
          recKeyOk (last (RemotePeer c)) (RemotePeer c) v \<and> recConnsOk (RemotePeer c) v \<and>
          liveOf v = 1 + (case map_of (segments cm (last (RemotePeer c))) (RemotePeer c) of
                            None \<Rightarrow> 0 | Some old \<Rightarrow> liveOf old)"
    then obtain v where cm': "cm' = cm\<lparr>segments := (segments cm)
                     (last (RemotePeer c) := AList.update (RemotePeer c) v
                        (segments cm (last (RemotePeer c)))),
                   connCount := connCount cm + 1\<rparr>"
      and key: "recKeyOk (last (RemotePeer c)) (RemotePeer c) v"
      and cn: "recConnsOk (RemotePeer c) v"
      and live: "liveOf v = 1 + (case map_of (segments cm (last (RemotePeer c))) (RemotePeer c) of
                            None \<Rightarrow> 0 | Some old \<Rightarrow> liveOf old)"
      by blast
    have "registryInv cm'"
      unfolding cm' using registryInv_update [OF assms(1) key cn] by simp
    moreover have "liveConns cm' = liveConns cm + 1"
      unfolding cm' using liveConns_update [OF live] by simp
    then have "countInv cm'"
      using assms(2) unfolding cm' by (simp add: countInv_def)
    ultimately show ?thesis by simp
  qed
qed

lemma Disconnected_cases:
  assumes inv: "registryInv cm" and res: "Disconnected cm c = Inr cm'"
  shows "cm' = cm \<or>
     (\<exists>s. cm' = cm\<lparr>segments := (segments cm)(last (RemotePeer c) := s),
                   connCount := connCount cm - 1\<rparr> \<and>
          distinct (map fst s) \<and>
          (\<forall>(k, pinf) \<in> set s. recKeyOk (last (RemotePeer c)) k pinf \<and> recConnsOk k pinf) \<and>
          Suc (liveConnsOf s) = liveConnsOf (segments cm (last (RemotePeer c))))"
proof -
  let ?p = "RemotePeer c"
  let ?b = "last ?p"
  let ?s = "segments cm ?b"
  from res have ne: "?p \<noteq> []"
    by (auto simp: Disconnected_def segments_get_def Let_def split: if_splits)
  then have get: "segments_get ?p = Some ?b" by (rule segments_get_last)
  have dist: "distinct (map fst ?s)" by (rule registryInv_shardD(1) [OF inv])
  have all: "\<forall>(k, pinf) \<in> set ?s. recKeyOk ?b k pinf \<and> recConnsOk k pinf"
    using registryInv_shardD(2) [OF inv] by auto
  show ?thesis
  proof (cases "map_of ?s ?p")
    case None
    with res get have "cm' = cm" by (simp add: Disconnected_def)
    then show ?thesis by simp
  next
    case (Some cinf)
    then have mem: "(?p, cinf) \<in> set ?s" by (rule map_of_SomeD)
    from registryInv_shardD(2) [OF inv mem]
    have key: "recKeyOk ?b ?p cinf" and cn: "recConnsOk ?p cinf" by simp_all
    show ?thesis
    proof (cases "map_of (conns cinf) c")
      case None
      with res get Some have "cm' = cm" by (simp add: Disconnected_def)
      then show ?thesis by simp
    next
      case (Some t)
      let ?v = "cinf\<lparr>conns := AList.delete c (conns cinf)\<rparr>"
      from Some have nonempty: "conns cinf \<noteq> []" by auto
      with cn have nt: "\<not> temp cinf" by (simp add: recConnsOk_def)
      from cn have dc: "distinct (map fst (conns cinf))" by (simp add: recConnsOk_def)
      have len: "Suc (length (AList.delete c (conns cinf))) = length (conns cinf)"
        by (rule length_delete_old [OF dc Some])
      show ?thesis
      proof (cases "length (AList.delete c (conns cinf)) = 0")
        case True
        let ?s' = "AList.delete ?p ?s"
        from res get \<open>map_of ?s ?p = Some cinf\<close> Some True
        have "cm' = cm\<lparr>segments := (segments cm)(?b := ?s'), connCount := connCount cm - 1\<rparr>"
          by (simp add: Disconnected_def Let_def delete_update_same)
        moreover have "distinct (map fst ?s')" using dist by (rule distinct_delete)
        moreover have "\<forall>(k, pinf) \<in> set ?s'. recKeyOk ?b k pinf \<and> recConnsOk k pinf"
          using all set_delete_subset [of ?p ?s] by auto
        moreover have "Suc (liveConnsOf ?s') = liveConnsOf ?s"
          using liveConnsOf_delete [OF dist \<open>map_of ?s ?p = Some cinf\<close>] nt len True
          by (simp add: liveOf_def)
        ultimately show ?thesis by blast
      next
        case False
        let ?s' = "AList.update ?p ?v ?s"
        from res get \<open>map_of ?s ?p = Some cinf\<close> Some False
        have "cm' = cm\<lparr>segments := (segments cm)(?b := ?s'), connCount := connCount cm - 1\<rparr>"
          by (simp add: Disconnected_def Let_def)
        moreover have "distinct (map fst ?s')" using dist by (rule distinct_update)
        moreover have "recKeyOk ?b ?p ?v" using key by (simp add: recKeyOk_def)
        moreover have "recConnsOk ?p ?v"
          using cn nt False set_delete_subset [of c "conns cinf"]
          by (auto simp: recConnsOk_def distinct_delete)
        ultimately have a: "cm' = cm\<lparr>segments := (segments cm)(?b := ?s'),
              connCount := connCount cm - 1\<rparr>"
          and b: "distinct (map fst ?s')"
          and c: "\<forall>(k, pinf) \<in> set ?s'. recKeyOk ?b k pinf \<and> recConnsOk k pinf"
          using all by (auto dest: set_update_cases)
        have "Suc (liveConnsOf ?s') = liveConnsOf ?s"
          using liveConnsOf_update_old [OF \<open>map_of ?s ?p = Some cinf\<close>, of ?v] nt len
          by (simp add: liveOf_def)
        with a b c show ?thesis by blast
      qed
    qed
  qed
qed

lemma word_of_nat_pred: "Suc m = n \<Longrightarrow> (of_nat n :: 32 word) - 1 = of_nat m"
  by auto

lemma Disconnected_inv:
  assumes "registryInv cm" "countInv cm" "Disconnected cm c = Inr cm'"
  shows "registryInv cm' \<and> countInv cm'"
proof -
  from Disconnected_cases [OF assms(1,3)]
  show ?thesis
  proof
    assume "cm' = cm"
    with assms show ?thesis by simp
  next
    assume "\<exists>s. cm' = cm\<lparr>segments := (segments cm)(last (RemotePeer c) := s),
                   connCount := connCount cm - 1\<rparr> \<and>
          distinct (map fst s) \<and>
          (\<forall>(k, pinf) \<in> set s. recKeyOk (last (RemotePeer c)) k pinf \<and> recConnsOk k pinf) \<and>
          Suc (liveConnsOf s) = liveConnsOf (segments cm (last (RemotePeer c)))"
    then obtain s where cm': "cm' = cm\<lparr>segments := (segments cm)(last (RemotePeer c) := s),
                   connCount := connCount cm - 1\<rparr>"
      and d: "distinct (map fst s)"
      and a: "\<forall>(k, pinf) \<in> set s. recKeyOk (last (RemotePeer c)) k pinf \<and> recConnsOk k pinf"
      and l: "Suc (liveConnsOf s) = liveConnsOf (segments cm (last (RemotePeer c)))"
      by blast
    have "registryInv cm'"
      unfolding cm' using registryInv_shard [OF assms(1) d a] by simp
    moreover have "Suc (liveConns cm') = liveConns cm"
      unfolding cm' using liveConns_shard_update [of cm "last (RemotePeer c)" s] l by simp
    then have "(of_nat (liveConns cm) :: 32 word) - 1 = of_nat (liveConns cm')"
      by (rule word_of_nat_pred)
    moreover have "connCount cm' = connCount cm - 1" unfolding cm' by simp
    ultimately have "countInv cm'"
      using assms(2) by (simp add: countInv_def)
    with \<open>registryInv cm'\<close> show ?thesis by simp
  qed
qed

lemma notify_inv:
  "registryInv cm \<Longrightarrow> countInv cm \<Longrightarrow> notify cm e = Inr cm' \<Longrightarrow> registryInv cm' \<and> countInv cm'"
  by (cases e) (auto dest: Connected_inv Disconnected_inv)

lemma notifyAll_inv:
  "registryInv cm \<Longrightarrow> countInv cm \<Longrightarrow> notifyAll cm es = Inr cm'
     \<Longrightarrow> registryInv cm' \<and> countInv cm'"
proof (induction es arbitrary: cm)
  case Nil
  then show ?case by simp
next
  case (Cons e es)
  show ?case
  proof (cases "notify cm e")
    case (Inl err)
    with Cons.prems show ?thesis by simp
  next
    case (Inr cm1)
    with Cons.prems have "notifyAll cm1 es = Inr cm'" by simp
    moreover from notify_inv [OF Cons.prems(1,2) Inr]
    have "registryInv cm1" "countInv cm1" by simp_all
    ultimately show ?thesis using Cons.IH by blast
  qed
qed

lemma liveConnsOf_Nil [simp]: "liveConnsOf [] = 0"
  by (simp add: liveConnsOf_def)

lemma NewConnManager_inv:
  "registryInv (NewConnManager low hi grace ps mins) \<and> countInv (NewConnManager low hi grace ps mins)"
  by (simp add: registryInv_def countInv_def liveConns_def NewConnManager_def)

lemma sint_connCount:
  "n < 2 ^ 31 \<Longrightarrow> sint (of_nat n :: 32 word) = int n"
  by (simp add: signed_of_nat signed_take_bit_int_eq_self)

text \<open>
  C5. Starting from a fresh manager, or from any state that satisfies the registry
  invariant and whose counter agrees with the registry, after every finite sequence of
  \<^verbatim>\<open>Connected\<close> and \<^verbatim>\<open>Disconnected\<close> notifications the counter \<^verbatim>\<open>connCount\<close> equals the
  number of connection handles held by the non-temporary records of all shards: as
  32-bit words always, and as integers as long as that number fits the \<^verbatim>\<open>int32\<close> counter.
\<close>

theorem counter_consistency:
  "registryInv (NewConnManager low hi grace ps mins) \<and>
   countInv (NewConnManager low hi grace ps mins) \<and>
   (registryInv cm \<and> countInv cm \<and> notifyAll cm es = Inr cm' \<longrightarrow>
      registryInv cm' \<and> connCount cm' = of_nat (liveConns cm') \<and>
      (liveConns cm' < 2 ^ 31 \<longrightarrow> sint (connCount cm') = int (liveConns cm')))"
proof (intro conjI impI)
  assume a: "registryInv cm \<and> countInv cm \<and> notifyAll cm es = Inr cm'"
  then have r: "registryInv cm' \<and> countInv cm'" using notifyAll_inv by blast
  then show "registryInv cm'" by simp
  from r show c: "connCount cm' = of_nat (liveConns cm')" by (simp add: countInv_def)
  assume "liveConns cm' < 2 ^ 31"
  then show "sint (connCount cm') = int (liveConns cm')"
    unfolding c by (rule sint_connCount)
qed (simp_all add: NewConnManager_inv)

lemma liveConns_single: "segments cm = (\<lambda>_. [])(b := s) \<Longrightarrow> liveConns cm = liveConnsOf s"
proof -
  assume a: "segments cm = (\<lambda>_. [])(b := s)"
  let ?cm0 = "cm\<lparr>segments := (\<lambda>_. [])\<rparr>"
  have "liveConns ?cm0 = 0" by (simp add: liveConns_def)
  moreover have "cm = ?cm0\<lparr>segments := (segments ?cm0)(b := s)\<rparr>" using a by simp
  ultimately show ?thesis
    using liveConns_shard_update [of ?cm0 b s] by simp
qed

theorem counter_consistency_witness:
  "notifyAll (NewConnManager 1 2 0 (\<lambda>_. Some []) Map.empty) exampleNotifications
     = Inr exampleNotified \<and>
   liveConns exampleNotified = 1 \<and>
   connCount exampleNotified = of_nat (liveConns exampleNotified) \<and>
   sint (connCount exampleNotified) = int (liveConns exampleNotified)"
proof -
  have run: "notifyAll (NewConnManager 1 2 0 (\<lambda>_. Some []) Map.empty) exampleNotifications
      = Inr exampleNotified"
    by (simp add: exampleNotifications_def exampleNotified_def NewConnManager_def
        Connected_def Disconnected_def segments_get_def Let_def)
  have "segments exampleNotified = (\<lambda>_. [])
      (7 := [([2, 7], \<lparr>id' = [2, 7], tags = [], value' = 0, temp = False,
                       conns = [(Conn [2, 7] ''b'' 2, 4)], firstSeen = 3\<rparr>)])"
    by (simp add: exampleNotified_def)
  from liveConns_single [OF this] have live: "liveConns exampleNotified = 1"
    by (simp add: liveConnsOf_def liveOf_def)
  show ?thesis
    using run live counter_consistency [of 1 2 0 "\<lambda>_. Some []" Map.empty
        "NewConnManager 1 2 0 (\<lambda>_. Some []) Map.empty" exampleNotifications exampleNotified]
    by simp
qed

section \<open>Trim engine: the sort\<close>

lemma candLess_asym: "candLess a b \<Longrightarrow> \<not> candLess b a"
  by (auto simp: candLess_def word_sless_alt split: if_splits)

lemma candLess_negtrans: "candLess a c \<Longrightarrow> candLess a b \<or> candLess b c"
  by (auto simp: candLess_def word_sless_alt split: if_splits)

lemma set_insertCand: "set (insertCand x ys) = insert x (set ys)"
  by (induction ys) auto

lemma mset_insertCand: "mset (insertCand x ys) = add_mset x (mset ys)"
  by (induction ys) auto

lemma sorted_insertCand:
  "sorted_wrt (\<lambda>a b. \<not> candLess b a) ys \<Longrightarrow> sorted_wrt (\<lambda>a b. \<not> candLess b a) (insertCand x ys)"
proof (induction ys)
  case Nil
  then show ?case by simp
next
  case (Cons y ys)
  show ?case
  proof (cases "candLess x y")
    case True
    have "\<forall>z \<in> set ys. \<not> candLess z x"
    proof
      fix z assume "z \<in> set ys"
      with Cons.prems have "\<not> candLess z y" by simp
      moreover from True have "\<not> candLess y x" by (rule candLess_asym)
      ultimately show "\<not> candLess z x" using candLess_negtrans [of z x y] by blast
    qed
    with True Cons.prems show ?thesis by (simp add: candLess_asym)
  next
    case False
    with Cons show ?thesis by (auto simp: set_insertCand)
  qed
qed

lemma sortSlice_meets_spec: "sortSliceSpec sortSlice"
proof -
  have "mset (sortSlice xs) = mset xs" for xs
    by (induction xs) (simp_all add: mset_insertCand)
  moreover have "sorted_wrt (\<lambda>a b. \<not> candLess b a) (sortSlice xs)" for xs
    by (induction xs) (simp_all add: sorted_insertCand)
  ultimately show ?thesis by (simp add: sortSliceSpec_def)
qed

lemma sortSliceSpec_set: "sortSliceSpec srt \<Longrightarrow> set (srt xs) = set xs"
  by (metis sortSliceSpec_def set_mset_mset)

section \<open>Trim engine: the scan and the selection\<close>

lemma scanPeers_candidates:
  "scanPeers cm (num, cands) s = (num', cands') \<Longrightarrow>
     set cands' \<subseteq> set cands \<union> {pinf. \<exists>k. (k, pinf) \<in> set s \<and> protected cm k = None}"
proof (induction s arbitrary: num cands)
  case Nil
  then show ?case by simp
next
  case (Cons a s)
  obtain p pinf where a: "a = (p, pinf)" by (cases a)
  show ?case
  proof (cases "protected cm p = None")
    case False
    with Cons.prems a have "scanPeers cm (num, cands) s = (num', cands')" by simp
    from Cons.IH [OF this] show ?thesis by auto
  next
    case True
    show ?thesis
    proof (cases "peerstore cm p")
      case None
      with Cons.prems a True have "scanPeers cm (num, cands @ [pinf]) s = (num', cands')" by simp
      from Cons.IH [OF this] True a show ?thesis by auto
    next
      case (Some protos)
      obtain num1 ex where pl: "protoLoop (minimumPeersForProtocol cm) num protos = (num1, ex)"
        by (cases "protoLoop (minimumPeersForProtocol cm) num protos")
      show ?thesis
      proof (cases ex)
        case True
        with Cons.prems a \<open>protected cm p = None\<close> Some pl
        have "scanPeers cm (num1, cands) s = (num', cands')" by simp
        from Cons.IH [OF this] show ?thesis by auto
      next
        case False
        with Cons.prems a \<open>protected cm p = None\<close> Some pl
        have "scanPeers cm (num1, cands @ [pinf]) s = (num', cands')" by simp
        from Cons.IH [OF this] \<open>protected cm p = None\<close> a show ?thesis by auto
      qed
    qed
  qed
qed

lemma scanSegments_candidates:
  "scanSegments cm (num, cands) bs = (num', cands') \<Longrightarrow>
     set cands' \<subseteq> set cands \<union>
       {pinf. \<exists>b k. (k, pinf) \<in> set (segments cm b) \<and> protected cm k = None}"
proof (induction bs arbitrary: num cands)
  case Nil
  then show ?case by simp
next
  case (Cons b bs)
  obtain num1 cands1 where s: "scanPeers cm (num, cands) (segments cm b) = (num1, cands1)"
    by (cases "scanPeers cm (num, cands) (segments cm b)")
  with Cons.prems have "scanSegments cm (num1, cands1) bs = (num', cands')" by simp
  from Cons.IH [OF this] scanPeers_candidates [OF s] show ?case by blast
qed

lemma selectLoop_total:
  "\<forall>pinf \<in> set cs. id' pinf \<noteq> [] \<Longrightarrow> \<exists>sel' cm'. selectLoop cm now cs target sel = Inr (sel', cm')"
proof (induction cs arbitrary: cm target sel)
  case Nil
  then show ?case by simp
next
  case (Cons pinf cs)
  then have ne: "id' pinf \<noteq> []" and rest: "\<forall>pinf \<in> set cs. id' pinf \<noteq> []" by simp_all
  from ne have get: "segments_get (id' pinf) = Some (last (id' pinf))" by (rule segments_get_last)
  show ?case
    using Cons.IH [OF rest] get by (simp add: Let_def)
qed

lemma selectLoop_selected:
  "selectLoop cm now cs target sel = Inr (sel', cm') \<Longrightarrow>
     set sel' \<subseteq> set sel \<union>
       {c. \<exists>pinf \<in> set cs. \<not> firstSeen pinf + gracePeriod cm > now \<and> c \<in> fst ` set (conns pinf)}"
proof (induction cs arbitrary: cm target sel)
  case Nil
  then show ?case by simp
next
  case (Cons pinf cs)
  show ?case
  proof (cases "word_sle target 0")
    case True
    with Cons.prems show ?thesis by simp
  next
    case notdone: False
    show ?thesis
    proof (cases "firstSeen pinf + gracePeriod cm > now")
      case True
      with Cons.prems notdone have "selectLoop cm now cs target sel = Inr (sel', cm')" by simp
      from Cons.IH [OF this] show ?thesis by auto
    next
      case False
      with Cons.prems notdone obtain b where get: "segments_get (id' pinf) = Some b"
        by (cases "segments_get (id' pinf)") auto
      let ?t = "target - of_nat (length (conns pinf))"
      show ?thesis
      proof (cases "length (conns pinf) = 0 \<and> temp pinf")
        case True
        let ?cm1 = "cm\<lparr>segments := (segments cm)(b := AList.delete (id' pinf) (segments cm b))\<rparr>"
        from Cons.prems notdone False get True
        have "selectLoop ?cm1 now cs ?t sel = Inr (sel', cm')" by (simp add: Let_def)
        from Cons.IH [OF this] show ?thesis by auto
      next
        case nodel: False
        from Cons.prems notdone False get nodel
        have "selectLoop cm now cs ?t (sel @ map fst (conns pinf)) = Inr (sel', cm')"
          by (auto simp: Let_def)
        from Cons.IH [OF this] False show ?thesis by auto
      qed
    qed
  qed
qed

lemma getConnsToClose_run:
  assumes "getConnsToClose srt cm now = Inr (sel, cm')"
    "scanSegments cm (Map.empty, []) allShards = (num, cands)"
  shows "(sel = [] \<and> cm' = cm) \<or>
         selectLoop cm now (srt cands) (scast (connCount cm) - lowWater cm) [] = Inr (sel, cm')"
  using assms by (auto simp: getConnsToClose_def Let_def split: if_splits)

lemma sint_nconns_bounds:
  "- (2 ^ 31) \<le> sint (scast (c :: 32 word) :: 64 word) \<and> sint (scast c :: 64 word) < 2 ^ 31"
proof -
  have "sint (scast c :: 64 word) = sint c" by (rule sint_up_scast) (simp add: is_up)
  then show ?thesis using sint_ge [of c] sint_lt [of c] by simp
qed

lemma makeslice_in_range:
  assumes "0 \<le> sint (l :: 64 word)" "\<not> word_sle (scast (c :: 32 word)) l"
  shows "makesliceOK (scast c - l + 10)"
proof -
  let ?n = "sint (scast c :: 64 word)"
  from sint_nconns_bounds [of c] have n: "?n < 2 ^ 31" by simp
  from assms(2) have over: "sint l < ?n" by (simp add: word_sle_eq)
  with assms(1) n have d: "0 < ?n - sint l" "?n - sint l < 2 ^ 31" by simp_all
  then have "signed_take_bit 63 (?n - sint l) = ?n - sint l"
    by (intro signed_take_bit_int_eq_self) simp_all
  then have t: "sint (scast c - l) = ?n - sint l" by (simp add: sint_word_diff)
  have ten: "sint (10 :: 64 word) = 10" by simp
  from d have "signed_take_bit 63 (?n - sint l + 10) = ?n - sint l + 10"
    by (intro signed_take_bit_int_eq_self) simp_all
  then have "sint (scast c - l + 10) = ?n - sint l + 10"
    by (simp add: sint_word_add t ten)
  with d show ?thesis by (simp add: makesliceOK_def maxConnCap_def word_sle_eq)
qed

lemma getConnsToClose_selected:
  assumes "sortSliceSpec srt" "getConnsToClose srt cm now = Inr (sel, cm')" "c \<in> set sel"
  shows "\<exists>b k pinf. (k, pinf) \<in> set (segments cm b) \<and> protected cm k = None \<and>
           \<not> firstSeen pinf + gracePeriod cm > now \<and> c \<in> fst ` set (conns pinf)"
proof -
  obtain num cands where sc: "scanSegments cm (Map.empty, []) allShards = (num, cands)"
    by (cases "scanSegments cm (Map.empty, []) allShards")
  from getConnsToClose_run [OF assms(2) sc] assms(3)
  have "selectLoop cm now (srt cands) (scast (connCount cm) - lowWater cm) [] = Inr (sel, cm')"
    by auto
  from selectLoop_selected [OF this] assms(3)
  obtain pinf where "pinf \<in> set (srt cands)" "\<not> firstSeen pinf + gracePeriod cm > now"
    "c \<in> fst ` set (conns pinf)" by fastforce
  moreover from this(1) have "pinf \<in> set cands"
    using sortSliceSpec_set [OF assms(1)] by simp
  with scanSegments_candidates [OF sc]
  obtain b k where "(k, pinf) \<in> set (segments cm b)" "protected cm k = None" by auto
  ultimately show ?thesis by blast
qed

lemma getConnsToClose_total:
  assumes "sortSliceSpec srt" "registryInv cm" "0 \<le> sint (lowWater cm)"
  shows "\<exists>sel cm'. getConnsToClose srt cm now = Inr (sel, cm')"
proof -
  obtain num cands where sc: "scanSegments cm (Map.empty, []) allShards = (num, cands)"
    by (cases "scanSegments cm (Map.empty, []) allShards")
  have "\<forall>pinf \<in> set (srt cands). id' pinf \<noteq> []"
  proof
    fix pinf assume "pinf \<in> set (srt cands)"
    then have "pinf \<in> set cands" using sortSliceSpec_set [OF assms(1)] by simp
    with scanSegments_candidates [OF sc]
    obtain b k where "(k, pinf) \<in> set (segments cm b)" by auto
    from registryInv_shardD(2) [OF assms(2) this] show "id' pinf \<noteq> []"
      by (simp add: recKeyOk_def)
  qed
  from selectLoop_total [OF this] makeslice_in_range [OF assms(3), of "connCount cm"]
  show ?thesis using sc by (simp add: getConnsToClose_def Let_def)
qed

lemma TrimOpenConns_closed:
  assumes "TrimOpenConns srt cm tSince now tEnd = Inr (closed, cm1)" "c \<in> set closed"
  shows "\<exists>sel cm'. getConnsToClose srt cm now = Inr (sel, cm') \<and> c \<in> set sel"
  using assms by (auto simp: TrimOpenConns_def split: if_splits sum.splits)

lemma TrimOpenConns_total:
  assumes "sortSliceSpec srt" "registryInv cm" "0 \<le> sint (lowWater cm)"
  shows "\<exists>closed cm1. TrimOpenConns srt cm tSince now tEnd = Inr (closed, cm1)"
  using getConnsToClose_total [OF assms, of now] by (auto simp: TrimOpenConns_def)

lemma record_unique:
  assumes "registryInv cm" "(k, pinf) \<in> set (segments cm b)" "(k, pinf') \<in> set (segments cm b')"
  shows "pinf' = pinf"
proof -
  from registryInv_shardD(2) [OF assms(1,2)] registryInv_shardD(2) [OF assms(1,3)]
  have "b' = b" by (auto simp: recKeyOk_def)
  with assms(2,3) registryInv_shardD(1) [OF assms(1), of b] show ?thesis
    by (metis eq_key_imp_eq_value)
qed

lemma conn_owner:
  assumes "registryInv cm" "(k, pinf) \<in> set (segments cm b)" "c \<in> fst ` set (conns pinf)"
  shows "RemotePeer c = k"
  using registryInv_shardD(2) [OF assms(1,2)] assms(3) by (auto simp: recConnsOk_def)

text \<open>
  C8. In a state that satisfies the registry invariant, no connection of a peer that is
  in the protection registry when the trim scans the shards is among the connections
  of any selection that \<^verbatim>\<open>getConnsToClose\<close> returns, nor among those that \<^verbatim>\<open>TrimOpenConns\<close>
  closes, whatever the value of the peer. The calls return whenever the low watermark
  is not negative; with a negative low watermark the capacity \<^verbatim>\<open>target+10\<close> of the
  allocation can be out of range, and then the call panics and selects nothing.
\<close>

theorem protection_immunity:
  assumes "sortSliceSpec srt" "registryInv cm" "protected cm p \<noteq> None"
    "(p, pinf) \<in> set (segments cm b)" "c \<in> fst ` set (conns pinf)"
  shows "(\<forall>sel cm'. getConnsToClose srt cm now = Inr (sel, cm') \<longrightarrow> c \<notin> set sel) \<and>
         (\<forall>closed cm1. TrimOpenConns srt cm tSince now tEnd = Inr (closed, cm1) \<longrightarrow>
            c \<notin> set closed) \<and>
         (0 \<le> sint (lowWater cm) \<longrightarrow>
            (\<exists>sel cm'. getConnsToClose srt cm now = Inr (sel, cm')) \<and>
            (\<exists>closed cm1. TrimOpenConns srt cm tSince now tEnd = Inr (closed, cm1)))"
proof -
  have notsel: "c \<notin> set sel" if "getConnsToClose srt cm now = Inr (sel, cm')" for sel cm'
  proof
    assume "c \<in> set sel"
    from getConnsToClose_selected [OF assms(1) that this]
    obtain b' k pinf' where r: "(k, pinf') \<in> set (segments cm b')" "protected cm k = None"
      "c \<in> fst ` set (conns pinf')" by blast
    from conn_owner [OF assms(2) r(1,3)] conn_owner [OF assms(2,4,5)] have "k = p" by simp
    with r(2) assms(3) show False by simp
  qed
  have notclosed: "c \<notin> set closed"
    if t: "TrimOpenConns srt cm tSince now tEnd = Inr (closed, cm1)" for closed cm1
  proof
    assume "c \<in> set closed"
    from TrimOpenConns_closed [OF t this]
    obtain sel cm' where "getConnsToClose srt cm now = Inr (sel, cm')" "c \<in> set sel" by blast
    with notsel show False by blast
  qed
  have returns: "(\<exists>sel cm'. getConnsToClose srt cm now = Inr (sel, cm')) \<and>
      (\<exists>closed cm1. TrimOpenConns srt cm tSince now tEnd = Inr (closed, cm1))"
    if "0 \<le> sint (lowWater cm)"
    using getConnsToClose_total [OF assms(1,2) that, of now]
      TrimOpenConns_total [OF assms(1,2) that, of tSince now tEnd] by simp
  show ?thesis
  proof (intro conjI allI impI)
    fix sel cm' assume "getConnsToClose srt cm now = Inr (sel, cm')"
    then show "c \<notin> set sel" by (rule notsel)
  next
    fix closed cm1 assume "TrimOpenConns srt cm tSince now tEnd = Inr (closed, cm1)"
    then show "c \<notin> set closed" by (rule notclosed)
  next
    assume "0 \<le> sint (lowWater cm)"
    from returns [OF this] show "\<exists>sel cm'. getConnsToClose srt cm now = Inr (sel, cm')" by simp
  next
    assume "0 \<le> sint (lowWater cm)"
    from returns [OF this]
    show "\<exists>closed cm1. TrimOpenConns srt cm tSince now tEnd = Inr (closed, cm1)" by simp
  qed
qed

text \<open>
  C7. In a state that satisfies the registry invariant, no connection of a peer whose
  first-seen time plus the grace period lies after the instant \<open>now\<close> that the trim pass
  reads when it starts is among the connections of any selection that \<^verbatim>\<open>getConnsToClose\<close>
  returns, nor among those that \<^verbatim>\<open>TrimOpenConns\<close> closes. The calls return whenever the low
  watermark is not negative; with a negative low watermark the capacity \<^verbatim>\<open>target+10\<close> of
  the allocation can be out of range, and then the call panics and selects nothing.
\<close>

theorem grace_immunity:
  assumes "sortSliceSpec srt" "registryInv cm" "firstSeen pinf + gracePeriod cm > now"
    "(p, pinf) \<in> set (segments cm b)" "c \<in> fst ` set (conns pinf)"
  shows "(\<forall>sel cm'. getConnsToClose srt cm now = Inr (sel, cm') \<longrightarrow> c \<notin> set sel) \<and>
         (\<forall>closed cm1. TrimOpenConns srt cm tSince now tEnd = Inr (closed, cm1) \<longrightarrow>
            c \<notin> set closed) \<and>
         (0 \<le> sint (lowWater cm) \<longrightarrow>
            (\<exists>sel cm'. getConnsToClose srt cm now = Inr (sel, cm')) \<and>
            (\<exists>closed cm1. TrimOpenConns srt cm tSince now tEnd = Inr (closed, cm1)))"
proof -
  have notsel: "c \<notin> set sel" if "getConnsToClose srt cm now = Inr (sel, cm')" for sel cm'
  proof
    assume "c \<in> set sel"
    from getConnsToClose_selected [OF assms(1) that this]
    obtain b' k pinf' where r: "(k, pinf') \<in> set (segments cm b')"
      "\<not> firstSeen pinf' + gracePeriod cm > now" "c \<in> fst ` set (conns pinf')" by blast
    from conn_owner [OF assms(2) r(1,3)] conn_owner [OF assms(2,4,5)] have "k = p" by simp
    with record_unique [OF assms(2,4)] r(1) have "pinf' = pinf" by simp
    with r(2) assms(3) show False by simp
  qed
  have notclosed: "c \<notin> set closed"
    if t: "TrimOpenConns srt cm tSince now tEnd = Inr (closed, cm1)" for closed cm1
  proof
    assume "c \<in> set closed"
    from TrimOpenConns_closed [OF t this]
    obtain sel cm' where "getConnsToClose srt cm now = Inr (sel, cm')" "c \<in> set sel" by blast
    with notsel show False by blast
  qed
  have returns: "(\<exists>sel cm'. getConnsToClose srt cm now = Inr (sel, cm')) \<and>
      (\<exists>closed cm1. TrimOpenConns srt cm tSince now tEnd = Inr (closed, cm1))"
    if "0 \<le> sint (lowWater cm)"
    using getConnsToClose_total [OF assms(1,2) that, of now]
      TrimOpenConns_total [OF assms(1,2) that, of tSince now tEnd] by simp
  show ?thesis
  proof (intro conjI allI impI)
    fix sel cm' assume "getConnsToClose srt cm now = Inr (sel, cm')"
    then show "c \<notin> set sel" by (rule notsel)
  next
    fix closed cm1 assume "TrimOpenConns srt cm tSince now tEnd = Inr (closed, cm1)"
    then show "c \<notin> set closed" by (rule notclosed)
  next
    assume "0 \<le> sint (lowWater cm)"
    from returns [OF this] show "\<exists>sel cm'. getConnsToClose srt cm now = Inr (sel, cm')" by simp
  next
    assume "0 \<le> sint (lowWater cm)"
    from returns [OF this]
    show "\<exists>closed cm1. TrimOpenConns srt cm tSince now tEnd = Inr (closed, cm1)" by simp
  qed
qed

section \<open>Trim engine: evaluation on a state with one occupied shard\<close>

lemma scanPeers_Nil [simp]: "scanPeers cm acc [] = acc"
  by (cases acc) simp

lemma scanPeers_append:
  "scanPeers cm acc (xs @ ys) = scanPeers cm (scanPeers cm acc xs) ys"
proof (induction xs arbitrary: acc)
  case Nil
  then show ?case by simp
next
  case (Cons a xs)
  obtain p pinf where a: "a = (p, pinf)" by (cases a)
  obtain num cands where acc: "acc = (num, cands)" by (cases acc)
  show ?case unfolding a acc
    by (simp add: Cons.IH split: option.splits prod.splits bool.splits)
qed

lemma scanSegments_concat:
  "scanSegments cm acc bs = scanPeers cm acc (concat (map (segments cm) bs))"
  by (induction bs arbitrary: acc) (simp_all add: scanPeers_append)

lemma concat_single:
  "distinct xs \<Longrightarrow> b \<in> set xs \<Longrightarrow> concat (map ((\<lambda>_. [])(b := s)) xs) = s"
proof (induction xs)
  case Nil
  then show ?case by simp
next
  case (Cons x xs)
  show ?case
  proof (cases "x = b")
    case True
    with Cons.prems have "b \<notin> set xs" by simp
    then have "concat (map ((\<lambda>_. [])(b := s)) xs) = []" by (induction xs) auto
    with True show ?thesis by simp
  next
    case False
    with Cons show ?thesis by simp
  qed
qed

lemma scanSegments_single:
  "segments cm = (\<lambda>_. [])(b := s) \<Longrightarrow> scanSegments cm acc allShards = scanPeers cm acc s"
  using concat_single [OF distinct_allShards set_allShards, of b s]
  by (simp add: scanSegments_concat)

lemma concat_map_Nil: "concat (map (\<lambda>_. []) bs) = []"
  by (induction bs) simp_all

lemma scanSegments_empty:
  "segments cm = (\<lambda>_. []) \<Longrightarrow> scanSegments cm acc allShards = acc"
  by (simp add: scanSegments_concat concat_map_Nil)

text \<open>
  With a low watermark of \<open>- 2^62\<close> and no connection, \<^verbatim>\<open>target+10\<close> is \<open>2^62 + 10\<close>, which is
  beyond the largest capacity: the allocation panics, whatever the registry holds.
\<close>

lemma getConnsToClose_cap_out_of_range:
  "getConnsToClose srt (NewConnManager (- 4611686018427387904) 1 0 ps mins) now
     = Inl CapOutOfRange"
proof -
  have "scanSegments (NewConnManager (- 4611686018427387904) 1 0 ps mins) (Map.empty, []) allShards
      = (Map.empty, [])"
    by (rule scanSegments_empty) (simp add: NewConnManager_def)
  then show ?thesis
    by (simp add: getConnsToClose_def makesliceOK_def maxConnCap_def NewConnManager_def
        word_sle_eq Let_def)
qed

lemma exampleTwo_segments:
  "segments exampleTwo = (\<lambda>_. [])
          (7 := [([1, 7], \<lparr>id' = [1, 7], tags = [(''t'', 1)], value' = 1, temp = False,
                           conns = [(Conn [1, 7] ''a'' 1, 96)], firstSeen = 95\<rparr>),
                 ([2, 7], \<lparr>id' = [2, 7], tags = [(''t'', 5)], value' = 5, temp = False,
                           conns = [(Conn [2, 7] ''b'' 2, 1)], firstSeen = 0\<rparr>)])"
  by (simp add: exampleTwo_def)

lemma exampleTwo_registryInv: "registryInv exampleTwo"
  by (simp add: registryInv_def exampleTwo_def recKeyOk_def recConnsOk_def)

lemma exampleTwo_trim_100:
  "getConnsToClose sortSlice exampleTwo 100 = Inr ([Conn [2, 7] ''b'' 2], exampleTwo)"
proof -
  have "scanSegments exampleTwo (Map.empty, []) allShards
      = scanPeers exampleTwo (Map.empty, []) (segments exampleTwo 7)"
    using scanSegments_single [OF exampleTwo_segments] by (simp add: exampleTwo_segments)
  then show ?thesis
    by (simp add: getConnsToClose_def makesliceOK_def maxConnCap_def exampleTwo_def
        NewConnManager_def candLess_def word_sle_eq word_sless_alt segments_get_def Let_def)
qed

lemma segments_Protect [simp]: "segments (Protect cm p t) = segments cm"
  by (simp add: Protect_def Let_def)

lemma registryInv_Protect [simp]: "registryInv (Protect cm p t) = registryInv cm"
  by (simp add: registryInv_def)

lemma exampleTwo_protected_trim:
  "getConnsToClose sortSlice (Protect exampleTwo [1, 7] ''keep'') 200
     = Inr ([Conn [2, 7] ''b'' 2], Protect exampleTwo [1, 7] ''keep'')"
proof -
  have "segments (Protect exampleTwo [1, 7] ''keep'') = (\<lambda>_. [])
          (7 := [([1, 7], \<lparr>id' = [1, 7], tags = [(''t'', 1)], value' = 1, temp = False,
                           conns = [(Conn [1, 7] ''a'' 1, 96)], firstSeen = 95\<rparr>),
                 ([2, 7], \<lparr>id' = [2, 7], tags = [(''t'', 5)], value' = 5, temp = False,
                           conns = [(Conn [2, 7] ''b'' 2, 1)], firstSeen = 0\<rparr>)])"
    by (simp add: exampleTwo_segments)
  from scanSegments_single [OF this]
  have "scanSegments (Protect exampleTwo [1, 7] ''keep'') (Map.empty, []) allShards
      = scanPeers (Protect exampleTwo [1, 7] ''keep'') (Map.empty, []) (segments exampleTwo 7)"
    by (simp add: exampleTwo_segments)
  then show ?thesis
    by (simp add: getConnsToClose_def makesliceOK_def maxConnCap_def exampleTwo_def
        NewConnManager_def Protect_def candLess_def word_sle_eq word_sless_alt segments_get_def Let_def)
qed

theorem protection_immunity_witness:
  "getConnsToClose sortSlice (Protect exampleTwo [1, 7] ''keep'') 200
     = Inr ([Conn [2, 7] ''b'' 2], Protect exampleTwo [1, 7] ''keep'') \<and>
   Conn [1, 7] ''a'' 1 \<notin> set [Conn [2, 7] ''b'' 2] \<and>
   0 \<le> sint (lowWater (Protect exampleTwo [1, 7] ''keep''))"
proof -
  let ?cm = "Protect exampleTwo [1, 7] ''keep''"
  let ?pinf = "\<lparr>id' = [1, 7], tags = [(''t'', 1)], value' = 1, temp = False,
                conns = [(Conn [1, 7] ''a'' 1, 96)], firstSeen = 95\<rparr>"
  have inv: "registryInv ?cm" by (simp add: exampleTwo_registryInv)
  have prot: "protected ?cm [1, 7] \<noteq> None" by (simp add: Protect_def)
  have mem: "([1, 7], ?pinf) \<in> set (segments ?cm 7)" by (simp add: exampleTwo_segments)
  have con: "Conn [1, 7] ''a'' 1 \<in> fst ` set (conns ?pinf)" by simp
  have low: "0 \<le> sint (lowWater ?cm)"
    by (simp add: Protect_def exampleTwo_def NewConnManager_def)
  from protection_immunity [OF sortSlice_meets_spec inv prot mem con, of 200 200 200] low
  show ?thesis by (simp add: exampleTwo_protected_trim)
qed

theorem grace_immunity_witness:
  "getConnsToClose sortSlice exampleTwo 100 = Inr ([Conn [2, 7] ''b'' 2], exampleTwo) \<and>
   Conn [1, 7] ''a'' 1 \<notin> set [Conn [2, 7] ''b'' 2] \<and>
   0 \<le> sint (lowWater exampleTwo)"
proof -
  let ?pinf = "\<lparr>id' = [1, 7], tags = [(''t'', 1)], value' = 1, temp = False,
                conns = [(Conn [1, 7] ''a'' 1, 96)], firstSeen = 95\<rparr>"
  have grace: "firstSeen ?pinf + gracePeriod exampleTwo > 100"
    by (simp add: exampleTwo_def NewConnManager_def)
  have mem: "([1, 7], ?pinf) \<in> set (segments exampleTwo 7)" by (simp add: exampleTwo_segments)
  have con: "Conn [1, 7] ''a'' 1 \<in> fst ` set (conns ?pinf)" by simp
  have low: "0 \<le> sint (lowWater exampleTwo)"
    by (simp add: exampleTwo_def NewConnManager_def)
  from grace_immunity [OF sortSlice_meets_spec exampleTwo_registryInv grace mem con, of 100 100] low
  show ?thesis by (simp add: exampleTwo_trim_100)
qed

section \<open>Trim engine: convergence to the low watermark\<close>










lemma allRecords_mem:
  "(k, pinf) \<in> set (allRecords cm) \<longleftrightarrow> (\<exists>b. (k, pinf) \<in> set (segments cm b))"
  using set_allShards by (auto simp: allRecords_def)

lemma allRecords_single: "segments cm = (\<lambda>_. [])(b := s) \<Longrightarrow> allRecords cm = s"
  using concat_single [OF distinct_allShards set_allShards, of b s]
  by (simp add: allRecords_def)










section \<open>Trim engine: the protocol quota\<close>

lemma word_inc_small:
  assumes "unat (c :: 64 word) < nat (sint (m :: 64 word))"
  shows "unat (c + 1) = unat c + 1" and "sint (c + 1) = int (unat c) + 1"
proof -
  have m: "sint m < 2 ^ 63" using sint_lt [of m] by simp
  with assms have small: "int (unat c) + 1 < 2 ^ 63" by linarith
  then have "int (unat c + 1) < 2 ^ 64" by simp
  then have "unat c + 1 < 2 ^ 64" by (metis of_nat_less_iff of_nat_numeral of_nat_power)
  have c: "c + 1 = of_nat (unat c + 1)" by simp
  show "unat (c + 1) = unat c + 1"
    using of_nat_inverse [OF c [symmetric]] \<open>unat c + 1 < 2 ^ 64\<close> by simp
  have "signed_take_bit 63 (int (unat c + 1)) = int (unat c + 1)"
    using small by (intro signed_take_bit_int_eq_self) simp_all
  then have "sint (of_nat (unat c + 1) :: 64 word) = int (unat c + 1)"
    by (simp only: signed_of_nat) simp
  then show "sint (c + 1) = int (unat c) + 1" unfolding c by simp
qed

lemma count0_upd_other: "sp \<noteq> proto \<Longrightarrow> count0 (num(sp \<mapsto> v)) proto = count0 num proto"
  by (simp add: count0_def)

lemma bump_eq:
  "(case num sp of None \<Rightarrow> num(sp \<mapsto> 1) | Some n \<Rightarrow> num(sp \<mapsto> n + 1))
     = num(sp \<mapsto> count0 num sp + 1)"
  by (cases "num sp") (simp_all add: count0_def)

lemma count0_upd_same: "count0 (num(sp \<mapsto> v)) sp = v"
  by (simp add: count0_def)

lemma protoLoop_hit:
  assumes "mins proto = Some m" "0 < sint m" "unat (count0 num proto) < nat (sint m)"
  shows "protoLoop mins num (proto # protos) = (num(proto \<mapsto> count0 num proto + 1), True)"
proof -
  from word_inc_small(2) [OF assms(3)] assms(3)
  have "sint (count0 num proto + 1) \<le> sint m" by linarith
  then have le: "word_sle (count0 num proto + 1) m" by (simp add: word_sle_eq)
  have pos: "\<not> word_sle m 0" using assms(2) by (simp add: word_sle_eq)
  show ?thesis
    using assms(1) pos le by (simp add: Let_def bump_eq count0_upd_same)
qed

lemma protoLoop_other:
  "proto \<notin> set protos \<Longrightarrow> count0 (fst (protoLoop mins num protos)) proto = count0 num proto"
proof (induction protos arbitrary: num)
  case Nil
  then show ?case by simp
next
  case (Cons sp protos)
  then have ne: "sp \<noteq> proto" and rest: "proto \<notin> set protos" by auto
  let ?num1 = "case num sp of None \<Rightarrow> num(sp \<mapsto> 1) | Some n \<Rightarrow> num(sp \<mapsto> n + 1)"
  have c1: "count0 ?num1 proto = count0 num proto"
    using ne by (cases "num sp") (simp_all add: count0_upd_other)
  have "count0 (fst (protoLoop mins ?num1 protos)) proto = count0 num proto"
    using Cons.IH [OF rest, of ?num1] c1 by simp
  with c1 show ?case
    by (simp add: Let_def split: option.splits)
qed

lemma protoLoop_reach:
  assumes "mins proto = Some m" "0 < sint m"
  shows "proto \<in> set protos \<Longrightarrow> unat (count0 num proto) < nat (sint m) \<Longrightarrow>
     snd (protoLoop mins num protos) = True \<and>
     unat (count0 (fst (protoLoop mins num protos)) proto) \<le> unat (count0 num proto) + 1"
proof (induction protos arbitrary: num)
  case Nil
  then show ?case by simp
next
  case (Cons sp protos)
  let ?num1 = "case num sp of None \<Rightarrow> num(sp \<mapsto> 1) | Some n \<Rightarrow> num(sp \<mapsto> n + 1)"
  show ?case
  proof (cases "sp = proto")
    case True
    from protoLoop_hit [of mins proto m num protos, OF assms Cons.prems(2)]
    have eq: "protoLoop mins num (sp # protos) = (num(proto \<mapsto> count0 num proto + 1), True)"
      unfolding True .
    show ?thesis
      unfolding eq fst_conv snd_conv count0_upd_same
      using word_inc_small(1) [OF Cons.prems(2)] by simp
  next
    case False
    with Cons.prems(1) have mem: "proto \<in> set protos" by simp
    have c1: "count0 ?num1 proto = count0 num proto"
      using False by (cases "num sp") (simp_all add: count0_upd_other)
    with Cons.prems(2) have "unat (count0 ?num1 proto) < nat (sint m)" by simp
    from Cons.IH [OF mem this] c1
    have ih: "snd (protoLoop mins ?num1 protos) = True"
      "unat (count0 (fst (protoLoop mins ?num1 protos)) proto) \<le> unat (count0 num proto) + 1"
      by simp_all
    show ?thesis
    proof (cases "protoLoop mins num (sp # protos) = (?num1, True)")
      case True
      then show ?thesis using c1 by simp
    next
      case False
      then have "protoLoop mins num (sp # protos) = protoLoop mins ?num1 protos"
        by (simp add: Let_def split: option.splits if_splits)
      with ih show ?thesis by simp
    qed
  qed
qed

lemma quotaInv_grow:
  "quotaInv m cnt r sp \<Longrightarrow> quotaInv m cnt (r + d) (sp + d)"
  by (auto simp: quotaInv_def)

lemma scan_step:
  assumes mins: "minimumPeersForProtocol cm proto = Some m" "0 < sint m"
    and J: "quotaInv m (count0 num proto) r sp"
  shows "\<exists>num1 kept.
      (\<forall>cands rest. scanPeers cm (num, cands) ((p, pinf) # rest)
          = scanPeers cm (num1, if kept then cands else cands @ [pinf]) rest) \<and>
      quotaInv m (count0 num1 proto)
        (r + (if kept \<and> supports cm proto p then 1 else 0))
        (sp + (if supports cm proto p then 1 else 0))"
proof (cases "protected cm p = None")
  case False
  let ?d = "if supports cm proto p then 1 else 0 :: nat"
  have "\<forall>cands rest. scanPeers cm (num, cands) ((p, pinf) # rest)
      = scanPeers cm (num, if True then cands else cands @ [pinf]) rest"
    using False by simp
  moreover have "quotaInv m (count0 num proto)
      (r + (if True \<and> supports cm proto p then 1 else 0)) (sp + ?d)"
    using quotaInv_grow [OF J, of ?d] by simp
  ultimately show ?thesis by blast
next
  case unprot: True
  show ?thesis
  proof (cases "peerstore cm p")
    case None
    then have ns: "\<not> supports cm proto p" by (simp add: supports_def)
    have "\<forall>cands rest. scanPeers cm (num, cands) ((p, pinf) # rest)
        = scanPeers cm (num, if False then cands else cands @ [pinf]) rest"
      using unprot None by simp
    moreover have "quotaInv m (count0 num proto)
        (r + (if False \<and> supports cm proto p then 1 else 0))
        (sp + (if supports cm proto p then 1 else 0))"
      using J ns by simp
    ultimately show ?thesis by blast
  next
    case (Some protos)
    obtain num1 ex where pl: "protoLoop (minimumPeersForProtocol cm) num protos = (num1, ex)"
      by (cases "protoLoop (minimumPeersForProtocol cm) num protos")
    have step: "\<forall>cands rest. scanPeers cm (num, cands) ((p, pinf) # rest)
        = scanPeers cm (num1, if ex then cands else cands @ [pinf]) rest"
      using unprot Some pl by simp
    have sup: "supports cm proto p \<longleftrightarrow> proto \<in> set protos"
      using Some by (simp add: supports_def)
    have "quotaInv m (count0 num1 proto)
        (r + (if ex \<and> supports cm proto p then 1 else 0))
        (sp + (if supports cm proto p then 1 else 0))"
    proof (cases "proto \<in> set protos")
      case False
      from protoLoop_other [OF False, of "minimumPeersForProtocol cm" num] pl
      have "count0 num1 proto = count0 num proto" by simp
      with J False sup show ?thesis by simp
    next
      case True
      show ?thesis
      proof (cases "nat (sint m) \<le> r")
        case True
        then show ?thesis by (simp add: quotaInv_def)
      next
        case False
        with J have c: "unat (count0 num proto) \<le> r" and e: "sp = r"
          by (simp_all add: quotaInv_def)
        with False have "unat (count0 num proto) < nat (sint m)" by simp
        from protoLoop_reach [of "minimumPeersForProtocol cm" proto m protos num,
            OF mins \<open>proto \<in> set protos\<close> this] pl
        have "ex = True" "unat (count0 num1 proto) \<le> unat (count0 num proto) + 1" by simp_all
        with c e sup \<open>proto \<in> set protos\<close> show ?thesis by (simp add: quotaInv_def)
      qed
    qed
    with step show ?thesis by blast
  qed
qed

lemma scanPeers_split:
  assumes mins: "minimumPeersForProtocol cm proto = Some m" "0 < sint m"
  shows "quotaInv m (count0 num proto) r sp \<Longrightarrow> scanPeers cm (num, cands) s = (num', cands') \<Longrightarrow>
     \<exists>c e. cands' = cands @ map snd c \<and> mset c + mset e = mset s \<and>
       quotaInv m (count0 num' proto)
         (r + length (filter (\<lambda>(k, pinf). supports cm proto k) e))
         (sp + length (filter (\<lambda>(k, pinf). supports cm proto k) s))"
proof (induction s arbitrary: num cands r sp)
  case Nil
  then have "cands' = cands @ map snd [] \<and> mset [] + mset [] = mset ([] :: (peer_id \<times> peerInfo) list) \<and>
       quotaInv m (count0 num' proto)
         (r + length (filter (\<lambda>(k, pinf). supports cm proto k) []))
         (sp + length (filter (\<lambda>(k, pinf). supports cm proto k) []))"
    by simp
  then show ?case by blast
next
  case (Cons a s)
  obtain p pinf where a: "a = (p, pinf)" by (cases a)
  let ?sup = "\<lambda>(k, pinf). supports cm proto k"
  from scan_step [OF mins Cons.prems(1), of p pinf]
  obtain num1 kept where
    step: "\<And>cands rest. scanPeers cm (num, cands) ((p, pinf) # rest)
          = scanPeers cm (num1, if kept then cands else cands @ [pinf]) rest"
    and J1: "quotaInv m (count0 num1 proto)
        (r + (if kept \<and> supports cm proto p then 1 else 0))
        (sp + (if supports cm proto p then 1 else 0))"
    by blast
  from Cons.prems(2) have run: "scanPeers cm (num1, if kept then cands else cands @ [pinf]) s
      = (num', cands')"
    unfolding a step .
  from Cons.IH [OF J1 run]
  obtain c e where c: "cands' = (if kept then cands else cands @ [pinf]) @ map snd c"
    and part: "mset c + mset e = mset s"
    and J2: "quotaInv m (count0 num' proto)
         (r + (if kept \<and> supports cm proto p then 1 else 0) + length (filter ?sup e))
         (sp + (if supports cm proto p then 1 else 0) + length (filter ?sup s))"
    by blast
  show ?case
  proof (cases kept)
    case True
    have "cands' = cands @ map snd c" using c True by simp
    moreover have "mset c + mset (a # e) = mset (a # s)" using part by simp
    moreover have "quotaInv m (count0 num' proto)
         (r + length (filter ?sup (a # e))) (sp + length (filter ?sup (a # s)))"
      using J2 True a by (cases "supports cm proto p") (simp_all add: ac_simps)
    ultimately show ?thesis by blast
  next
    case False
    have "cands' = cands @ map snd (a # c)" using c False a by simp
    moreover have "mset (a # c) + mset e = mset (a # s)" using part by simp
    moreover have "quotaInv m (count0 num' proto)
         (r + length (filter ?sup e)) (sp + length (filter ?sup (a # s)))"
      using J2 False a by (cases "supports cm proto p") (simp_all add: ac_simps)
    ultimately show ?thesis by blast
  qed
qed

lemma distinct_keys_concat:
  assumes "\<forall>b. distinct (map fst (f b)) \<and> (\<forall>(k, v) \<in> set (f b). g k = b)"
  shows "distinct bs \<Longrightarrow> distinct (map fst (concat (map f bs)))"
proof (induction bs)
  case Nil
  then show ?case by simp
next
  case (Cons b bs)
  then have d: "distinct (map fst (concat (map f bs)))" and nb: "b \<notin> set bs" by simp_all
  have "fst ` set (f b) \<inter> fst ` set (concat (map f bs)) = {}"
  proof (rule ccontr)
    assume "fst ` set (f b) \<inter> fst ` set (concat (map f bs)) \<noteq> {}"
    then obtain k v v' b' where "(k, v) \<in> set (f b)" "b' \<in> set bs" "(k, v') \<in> set (f b')"
      by fastforce
    with assms have "g k = b" "g k = b'" by auto
    with nb \<open>b' \<in> set bs\<close> show False by simp
  qed
  with d assms show ?case by simp
qed

lemma allRecords_distinct_keys: "registryInv cm \<Longrightarrow> distinct (map fst (allRecords cm))"
  unfolding allRecords_def
  by (rule distinct_keys_concat [where g = last, OF _ distinct_allShards])
    (auto simp: registryInv_def recKeyOk_def)

lemma getConnsToClose_from_cands:
  assumes "sortSliceSpec srt" "getConnsToClose srt cm now = Inr (sel, cm')"
    "scanSegments cm (Map.empty, []) allShards = (num, cands)" "c \<in> set sel"
  shows "\<exists>pinf \<in> set cands. c \<in> fst ` set (conns pinf)"
proof -
  from getConnsToClose_run [OF assms(2,3)] assms(4)
  have "selectLoop cm now (srt cands) (scast (connCount cm) - lowWater cm) [] = Inr (sel, cm')"
    by auto
  from selectLoop_selected [OF this] assms(4)
  obtain pinf where "pinf \<in> set (srt cands)" "c \<in> fst ` set (conns pinf)" by fastforce
  then show ?thesis using sortSliceSpec_set [OF assms(1)] by blast
qed

lemma part_subsets: "mset c + mset e = mset rs \<Longrightarrow> set c \<subseteq> set rs \<and> set e \<subseteq> set rs"
proof -
  assume a: "mset c + mset e = mset rs"
  then have "set_mset (mset c + mset e) = set_mset (mset rs)" by simp
  then show ?thesis by auto
qed

lemma part_count:
  assumes "mset c + mset e = mset rs" "\<forall>x \<in> set e. P x \<longrightarrow> Q x"
  shows "length (filter P e) \<le> length (filter Q rs)"
proof -
  have "mset e \<subseteq># mset rs" using assms(1) by (metis mset_subset_eq_add_right)
  then have "filter_mset Q (mset e) \<subseteq># filter_mset Q (mset rs)"
    by (rule multiset_filter_mono)
  then have "size (filter_mset Q (mset e)) \<le> size (filter_mset Q (mset rs))"
    by (rule size_mset_mono)
  then have "length (filter Q e) \<le> length (filter Q rs)"
    by (simp only: mset_filter [symmetric] size_mset)
  moreover have "length (filter P e) \<le> length (filter Q e)"
    using assms(2) by (induction e) auto
  ultimately show ?thesis by simp
qed

lemma part_keys:
  assumes "mset c + mset e = mset rs" "distinct (map fst rs)" "(k, v) \<in> set c" "(k, v') \<in> set e"
  shows False
proof -
  have "mset (map fst (c @ e)) = mset (map fst rs)"
    using assms(1) by (simp only: mset_map mset_append)
  with assms(2) have "distinct (map fst (c @ e))"
    by (metis mset_eq_imp_distinct_iff)
  then have "fst ` set c \<inter> fst ` set e = {}" by simp
  moreover have "k \<in> fst ` set c" using assms(3) by (metis fst_conv image_eqI)
  moreover have "k \<in> fst ` set e" using assms(4) by (metis fst_conv image_eqI)
  ultimately show False by blast
qed

text \<open>
  The quota of a protocol protects the connected peers that support it when no record
  of a supporter is temporary. Take a state that satisfies the registry invariant, in
  which every tracked peer that supports the protocol has a record that is not
  temporary. If the protocol has a configured minimum \<open>m > 0\<close> and \<open>S\<close> connected peers
  support it, then every selection that \<^verbatim>\<open>getConnsToClose\<close> returns leaves at least
  \<open>min m S\<close> of them with all their connections.
\<close>

lemma quota_keeps_connected:
  assumes srt: "sortSliceSpec srt" and inv: "registryInv cm"
    and ok: "\<forall>(k, pinf) \<in> set (allRecords cm). supports cm proto k \<longrightarrow> \<not> temp pinf"
    and mins: "minimumPeersForProtocol cm proto = Some m" "0 < sint m"
    and run: "getConnsToClose srt cm now = Inr (sel, cm')"
  shows "min (nat (sint m)) (length (connectedSupporters cm proto))
           \<le> length (remainingSupporters cm proto sel)"
proof -
  let ?rs = "allRecords cm"
  let ?sup = "\<lambda>(k, pinf). supports cm proto k"
  obtain num cands where sc: "scanSegments cm (Map.empty, []) allShards = (num, cands)"
    by (cases "scanSegments cm (Map.empty, []) allShards")
  then have sp: "scanPeers cm (Map.empty, []) ?rs = (num, cands)"
    by (simp add: scanSegments_concat allRecords_def)
  have "quotaInv m (count0 Map.empty proto) 0 0" by (simp add: quotaInv_def count0_def)
  from scanPeers_split [OF mins this sp]
  obtain c e where cands: "cands = map snd c" and part: "mset c + mset e = mset ?rs"
    and J: "quotaInv m (count0 num proto) (length (filter ?sup e)) (length (filter ?sup ?rs))"
    by auto
  from J have floor: "min (nat (sint m)) (length (filter ?sup ?rs)) \<le> length (filter ?sup e)"
    by (auto simp: quotaInv_def)
  from part_subsets [OF part] have sub_c: "set c \<subseteq> set ?rs" and sub_e: "set e \<subseteq> set ?rs"
    by simp_all
  have connected: "conns pinf \<noteq> []" if "(k, pinf) \<in> set ?rs" "supports cm proto k" for k pinf
  proof -
    from that(1) obtain b where "(k, pinf) \<in> set (segments cm b)"
      unfolding allRecords_mem by blast
    from registryInv_shardD(2) [OF inv this] have "temp pinf \<longleftrightarrow> conns pinf = []"
      by (simp add: recConnsOk_def)
    moreover from that ok have "\<not> temp pinf" by blast
    ultimately show ?thesis by simp
  qed
  have cs: "connectedSupporters cm proto = filter ?sup ?rs"
    unfolding connectedSupporters_def
  proof (rule filter_cong [OF refl])
    fix x assume mem: "x \<in> set ?rs"
    obtain k pinf where xk: "x = (k, pinf)" by (cases x)
    with mem connected have "supports cm proto k \<Longrightarrow> conns pinf \<noteq> []" by blast
    then show "(case x of (k, pinf) \<Rightarrow> conns pinf \<noteq> [] \<and> supports cm proto k)
        = (case x of (k, pinf) \<Rightarrow> supports cm proto k)"
      unfolding xk by auto
  qed
  have kept: "untouched sel x" if x: "x \<in> set e" for x
  proof -
    obtain k pinf where xk: "x = (k, pinf)" by (cases x)
    have "c0 \<notin> set sel" if c0: "c0 \<in> fst ` set (conns pinf)" for c0
    proof
      assume "c0 \<in> set sel"
      from getConnsToClose_from_cands [OF srt run sc this]
      obtain pinf' where p': "pinf' \<in> set cands" "c0 \<in> fst ` set (conns pinf')" by blast
      from p'(1) cands obtain k' where kc: "(k', pinf') \<in> set c" by auto
      with sub_c have "(k', pinf') \<in> set (allRecords cm)" by blast
      then obtain b' where "(k', pinf') \<in> set (segments cm b')"
        unfolding allRecords_mem by blast
      from conn_owner [OF inv this p'(2)] have k1: "RemotePeer c0 = k'" .
      from x xk sub_e have "(k, pinf) \<in> set (allRecords cm)" by blast
      then obtain b where "(k, pinf) \<in> set (segments cm b)"
        unfolding allRecords_mem by blast
      from conn_owner [OF inv this c0] have k2: "RemotePeer c0 = k" .
      from kc k1 k2 have "(k, pinf') \<in> set c" by simp
      moreover from x xk have "(k, pinf) \<in> set e" by simp
      ultimately show False
        using part_keys [OF part allRecords_distinct_keys [OF inv]] by blast
    qed
    then show ?thesis unfolding xk untouched_def by (simp add: list_all_iff)
  qed
  let ?Q = "\<lambda>x. ?sup x \<and> untouched sel x"
  have "\<forall>x \<in> set e. ?sup x \<longrightarrow> ?Q x" using kept by simp
  from part_count [OF part this]
  have "length (filter ?sup e) \<le> length (filter ?Q ?rs)" .
  moreover have "filter ?Q ?rs = remainingSupporters cm proto sel"
    unfolding remainingSupporters_def cs by (simp only: filter_filter)
  ultimately show ?thesis
    using floor unfolding cs by simp
qed

lemma exampleQuota_segments:
  "segments exampleQuota = (\<lambda>_. [])
          (7 := [([1, 7], \<lparr>id' = [1, 7], tags = [(''t'', 1)], value' = 1, temp = False,
                           conns = [(Conn [1, 7] ''a'' 1, 96)], firstSeen = 95\<rparr>),
                 ([2, 7], \<lparr>id' = [2, 7], tags = [(''t'', 5)], value' = 5, temp = False,
                           conns = [(Conn [2, 7] ''b'' 2, 1)], firstSeen = 0\<rparr>)])"
  by (simp add: exampleQuota_def exampleTwo_segments)

lemma exampleQuota_trim:
  "getConnsToClose sortSlice exampleQuota 200 = Inr ([Conn [2, 7] ''b'' 2], exampleQuota)"
proof -
  have "scanSegments exampleQuota (Map.empty, []) allShards
      = scanPeers exampleQuota (Map.empty, []) (segments exampleQuota 7)"
    using scanSegments_single [OF exampleQuota_segments] by (simp add: exampleQuota_segments)
  then show ?thesis
    by (simp add: getConnsToClose_def makesliceOK_def maxConnCap_def exampleQuota_def
        exampleTwo_def NewConnManager_def candLess_def count0_def word_sle_eq word_sless_alt segments_get_def Let_def)
qed

lemma quota_keeps_connected_example:
  "getConnsToClose sortSlice exampleQuota 200 = Inr ([Conn [2, 7] ''b'' 2], exampleQuota) \<and>
   length (connectedSupporters exampleQuota ''/p/1'') = 2 \<and>
   length (remainingSupporters exampleQuota ''/p/1'' [Conn [2, 7] ''b'' 2]) = 1"
proof -
  have recs: "allRecords exampleQuota =
     [([1, 7], \<lparr>id' = [1, 7], tags = [(''t'', 1)], value' = 1, temp = False,
               conns = [(Conn [1, 7] ''a'' 1, 96)], firstSeen = 95\<rparr>),
      ([2, 7], \<lparr>id' = [2, 7], tags = [(''t'', 5)], value' = 5, temp = False,
               conns = [(Conn [2, 7] ''b'' 2, 1)], firstSeen = 0\<rparr>)]"
    by (rule allRecords_single [OF exampleQuota_segments])
  have inv: "registryInv exampleQuota"
    using exampleTwo_registryInv by (simp add: registryInv_def exampleQuota_def)
  have ok: "\<forall>(k, pinf) \<in> set (allRecords exampleQuota).
      supports exampleQuota ''/p/1'' k \<longrightarrow> \<not> temp pinf"
    by (simp add: recs)
  have mins: "minimumPeersForProtocol exampleQuota ''/p/1'' = Some 1" "0 < sint (1 :: 64 word)"
    by (simp_all add: exampleQuota_def)
  have sup: "length (connectedSupporters exampleQuota ''/p/1'') = 2"
    by (simp add: connectedSupporters_def recs supports_def) (simp add: exampleQuota_def)
  have rem: "length (remainingSupporters exampleQuota ''/p/1'' [Conn [2, 7] ''b'' 2]) = 1"
    by (simp add: remainingSupporters_def connectedSupporters_def recs supports_def untouched_def)
      (simp add: exampleQuota_def)
  from quota_keeps_connected [OF sortSlice_meets_spec inv ok mins exampleQuota_trim]
  show ?thesis by (simp add: exampleQuota_trim sup rem)
qed

text \<open>
  The state \<open>exampleProvisional\<close> is reached from a new manager by tagging a peer that has
  no connection, connecting a second peer twice and tagging it.
\<close>

lemma exampleProvisional_steps:
  "\<exists>s1 s2 s3.
     TagPeer (NewConnManager 1 1 0 (\<lambda>_. Some [''/p/1'']) [''/p/1'' \<mapsto> 1]) [1, 7] ''t'' 1 0
       = Inr s1 \<and>
     Connected s1 (Conn [2, 7] ''b'' 1) 1 1 = Inr s2 \<and>
     Connected s2 (Conn [2, 7] ''c'' 2) 1 2 = Inr s3 \<and>
     TagPeer s3 [2, 7] ''t'' 5 9 = Inr exampleProvisional"
  by (simp add: TagPeer_def Connected_def NewConnManager_def exampleProvisional_def
      segments_get_def tagInfoFor_def lookup0_def Let_def fun_upd_twist)

lemma exampleProvisional_reachable: "reachable exampleProvisional"
proof -
  from exampleProvisional_steps obtain s1 s2 s3 where
    a: "TagPeer (NewConnManager 1 1 0 (\<lambda>_. Some [''/p/1'']) [''/p/1'' \<mapsto> 1]) [1, 7] ''t'' 1 0
          = Inr s1"
    and b: "Connected s1 (Conn [2, 7] ''b'' 1) 1 1 = Inr s2"
    and c: "Connected s2 (Conn [2, 7] ''c'' 2) 1 2 = Inr s3"
    and d: "TagPeer s3 [2, 7] ''t'' 5 9 = Inr exampleProvisional" by blast
  from reach_new a have "reachable s1" by (rule reach_TagPeer)
  from this b have "reachable s2" by (rule reach_Connected)
  from this c have "reachable s3" by (rule reach_Connected)
  from this d show ?thesis by (rule reach_TagPeer)
qed

text \<open>
  C1. The quota does not hold when the registry has a temporary record, which a tag
  operation on a peer without connections creates. In the state \<open>exampleProvisional\<close>
  the protocol \<open>/p/1\<close> has minimum 1, every lookup succeeds, no peer is protected and
  none is within its grace period. The scan counts the record without connections
  towards the minimum and exempts it, so the only connected supporter becomes a
  candidate and \<^verbatim>\<open>getConnsToClose\<close> selects both its connections: the number of connected
  supporters falls from 1 to 0, below the minimum.
\<close>

theorem quota_floor_violated:
  "minimumPeersForProtocol exampleProvisional ''/p/1'' = Some 1 \<and>
   peerstore exampleProvisional [1, 7] = Some [''/p/1''] \<and>
   peerstore exampleProvisional [2, 7] = Some [''/p/1''] \<and>
   protected exampleProvisional [1, 7] = None \<and> protected exampleProvisional [2, 7] = None \<and>
   gracePeriod exampleProvisional = 0 \<and>
   map (\<lambda>(k, pinf). (k, firstSeen pinf)) (allRecords exampleProvisional) = [([1, 7], 0), ([2, 7], 1)] \<and>
   getConnsToClose sortSlice exampleProvisional 200
     = Inr ([Conn [2, 7] ''b'' 1, Conn [2, 7] ''c'' 2], exampleProvisional) \<and>
   length (connectedSupporters exampleProvisional ''/p/1'') = 1 \<and>
   length (remainingSupporters exampleProvisional ''/p/1''
             [Conn [2, 7] ''b'' 1, Conn [2, 7] ''c'' 2]) = 0"
proof -
  have seg: "segments exampleProvisional = (\<lambda>_. [])
          (7 := [([1, 7], \<lparr>id' = [1, 7], tags = [(''t'', 1)], value' = 1, temp = True,
                           conns = [], firstSeen = 0\<rparr>),
                 ([2, 7], \<lparr>id' = [2, 7], tags = [(''t'', 5)], value' = 5, temp = False,
                           conns = [(Conn [2, 7] ''b'' 1, 1), (Conn [2, 7] ''c'' 2, 2)],
                           firstSeen = 1\<rparr>)])"
    by (simp add: exampleProvisional_def)
  have recs: "allRecords exampleProvisional =
          [([1, 7], \<lparr>id' = [1, 7], tags = [(''t'', 1)], value' = 1, temp = True,
                           conns = [], firstSeen = 0\<rparr>),
                 ([2, 7], \<lparr>id' = [2, 7], tags = [(''t'', 5)], value' = 5, temp = False,
                           conns = [(Conn [2, 7] ''b'' 1, 1), (Conn [2, 7] ''c'' 2, 2)],
                           firstSeen = 1\<rparr>)]"
    by (rule allRecords_single [OF seg])
  have "scanSegments exampleProvisional (Map.empty, []) allShards
      = scanPeers exampleProvisional (Map.empty, []) (segments exampleProvisional 7)"
    using scanSegments_single [OF seg] by (simp add: seg)
  then have run: "getConnsToClose sortSlice exampleProvisional 200
     = Inr ([Conn [2, 7] ''b'' 1, Conn [2, 7] ''c'' 2], exampleProvisional)"
    by (simp add: getConnsToClose_def makesliceOK_def maxConnCap_def exampleProvisional_def
        NewConnManager_def candLess_def count0_def word_sle_eq word_sless_alt segments_get_def Let_def)
  have sup: "length (connectedSupporters exampleProvisional ''/p/1'') = 1"
    by (simp add: connectedSupporters_def recs supports_def) (simp add: exampleProvisional_def NewConnManager_def)
  have rem: "length (remainingSupporters exampleProvisional ''/p/1''
             [Conn [2, 7] ''b'' 1, Conn [2, 7] ''c'' 2]) = 0"
    by (simp add: remainingSupporters_def connectedSupporters_def recs supports_def untouched_def)
  have fields: "minimumPeersForProtocol exampleProvisional ''/p/1'' = Some 1 \<and>
     peerstore exampleProvisional [1, 7] = Some [''/p/1''] \<and>
     peerstore exampleProvisional [2, 7] = Some [''/p/1''] \<and>
     protected exampleProvisional [1, 7] = None \<and> protected exampleProvisional [2, 7] = None \<and>
     gracePeriod exampleProvisional = 0"
    by (simp add: exampleProvisional_def NewConnManager_def)
  have seen: "map (\<lambda>(k, pinf). (k, firstSeen pinf)) (allRecords exampleProvisional)
      = [([1, 7], 0), ([2, 7], 1)]"
    by (simp add: recs)
  show ?thesis
    using fields seen run sup rem by simp
qed

section \<open>The invariants hold in every reachable state\<close>

lemma registryInv_tempNoConns: "registryInv cm \<Longrightarrow> tempNoConns cm"
  by (auto simp: registryInv_def tempNoConns_def recConnsOk_def)

lemma registryInv_protected [simp]: "registryInv (cm\<lparr>protected := x\<rparr>) = registryInv cm"
  by (simp add: registryInv_def)

lemma registryInv_lastTrim [simp]: "registryInv (cm\<lparr>lastTrim := x\<rparr>) = registryInv cm"
  by (simp add: registryInv_def)

lemma liveConns_protected [simp]: "liveConns (cm\<lparr>protected := x\<rparr>) = liveConns cm"
  by (simp add: liveConns_def)

lemma liveConns_lastTrim [simp]: "liveConns (cm\<lparr>lastTrim := x\<rparr>) = liveConns cm"
  by (simp add: liveConns_def)

lemma valueInv_protected [simp]: "valueInv (cm\<lparr>protected := x\<rparr>) = valueInv cm"
  by (simp add: valueInv_def)

lemma valueInv_lastTrim [simp]: "valueInv (cm\<lparr>lastTrim := x\<rparr>) = valueInv cm"
  by (simp add: valueInv_def)

lemma valueInv_connCount [simp]: "valueInv (cm\<lparr>connCount := x\<rparr>) = valueInv cm"
  by (simp add: valueInv_def)

text \<open>A tag operation replaces the record of the peer by one with the same connections.\<close>

lemma tag_update_inv:
  assumes inv: "registryInv cm" and cnt: "countInv cm" and ne: "p \<noteq> []"
    and v: "case map_of (segments cm (last p)) p of
              None \<Rightarrow> id' v = p \<and> temp v \<and> conns v = []
            | Some old \<Rightarrow> id' v = id' old \<and> temp v = temp old \<and> conns v = conns old"
  shows "registryInv (cm\<lparr>segments := (segments cm)(last p := AList.update p v (segments cm (last p)))\<rparr>) \<and>
         countInv (cm\<lparr>segments := (segments cm)(last p := AList.update p v (segments cm (last p)))\<rparr>)"
proof -
  let ?s = "segments cm (last p)"
  have ok: "recKeyOk (last p) p v \<and> recConnsOk p v \<and>
      liveOf v = 0 + (case map_of ?s p of None \<Rightarrow> 0 | Some old \<Rightarrow> liveOf old)"
  proof (cases "map_of ?s p")
    case None
    with v ne show ?thesis by (simp add: recKeyOk_def recConnsOk_def liveOf_def)
  next
    case (Some old)
    then have "(p, old) \<in> set ?s" by (rule map_of_SomeD)
    from registryInv_shardD(2) [OF inv this] Some v show ?thesis
      by (simp add: recKeyOk_def recConnsOk_def liveOf_def)
  qed
  then have "liveOf v = 0 + (case map_of ?s p of None \<Rightarrow> 0 | Some old \<Rightarrow> liveOf old)" by simp
  from liveConns_update [OF this] cnt
  have "countInv (cm\<lparr>segments := (segments cm)(last p := AList.update p v ?s)\<rparr>)"
    by (simp add: countInv_def)
  moreover from ok have "registryInv (cm\<lparr>segments := (segments cm)(last p := AList.update p v ?s)\<rparr>)"
    using registryInv_update [OF inv] by blast
  ultimately show ?thesis by simp
qed

lemma TagPeer_shape:
  assumes "TagPeer cm p tag val now = Inr cm'"
  shows "p \<noteq> [] \<and> (\<exists>v. cm' = cm\<lparr>segments := (segments cm)(last p := AList.update p v (segments cm (last p)))\<rparr> \<and>
     (case map_of (segments cm (last p)) p of
              None \<Rightarrow> id' v = p \<and> temp v \<and> conns v = []
            | Some old \<Rightarrow> id' v = id' old \<and> temp v = temp old \<and> conns v = conns old))"
proof -
  from assms have ne: "p \<noteq> []" by (auto simp: TagPeer_def segments_get_def split: if_splits)
  then have get: "segments_get p = Some (last p)" by (rule segments_get_last)
  show ?thesis
  proof (cases "map_of (segments cm (last p)) p")
    case None
    with assms get ne show ?thesis
      by (auto simp: TagPeer_def tagInfoFor_def Let_def)
  next
    case (Some old)
    with assms get ne show ?thesis
      by (auto simp: TagPeer_def tagInfoFor_def Let_def)
  qed
qed

lemma UpsertTag_shape:
  assumes "UpsertTag cm p tag f now = Inr cm'"
  shows "p \<noteq> [] \<and> (\<exists>v. cm' = cm\<lparr>segments := (segments cm)(last p := AList.update p v (segments cm (last p)))\<rparr> \<and>
     (case map_of (segments cm (last p)) p of
              None \<Rightarrow> id' v = p \<and> temp v \<and> conns v = []
            | Some old \<Rightarrow> id' v = id' old \<and> temp v = temp old \<and> conns v = conns old))"
proof -
  from assms have ne: "p \<noteq> []" by (auto simp: UpsertTag_def segments_get_def split: if_splits)
  then have get: "segments_get p = Some (last p)" by (rule segments_get_last)
  show ?thesis
  proof (cases "map_of (segments cm (last p)) p")
    case None
    with assms get ne show ?thesis
      by (auto simp: UpsertTag_def tagInfoFor_def Let_def)
  next
    case (Some old)
    with assms get ne show ?thesis
      by (auto simp: UpsertTag_def tagInfoFor_def Let_def)
  qed
qed

lemma UntagPeer_shape:
  assumes "UntagPeer cm p tag = Inr cm'"
  shows "cm' = cm \<or> (p \<noteq> [] \<and> (\<exists>v. cm' = cm\<lparr>segments := (segments cm)(last p := AList.update p v (segments cm (last p)))\<rparr> \<and>
     (case map_of (segments cm (last p)) p of
              None \<Rightarrow> id' v = p \<and> temp v \<and> conns v = []
            | Some old \<Rightarrow> id' v = id' old \<and> temp v = temp old \<and> conns v = conns old)))"
proof -
  from assms have ne: "p \<noteq> []" by (auto simp: UntagPeer_def segments_get_def split: if_splits)
  then have get: "segments_get p = Some (last p)" by (rule segments_get_last)
  show ?thesis
  proof (cases "map_of (segments cm (last p)) p")
    case None
    with assms get show ?thesis by (simp add: UntagPeer_def)
  next
    case (Some old)
    with assms get ne show ?thesis
      by (auto simp: UntagPeer_def Let_def)
  qed
qed

lemma TagPeer_inv:
  "registryInv cm \<Longrightarrow> countInv cm \<Longrightarrow> TagPeer cm p tag val now = Inr cm'
     \<Longrightarrow> registryInv cm' \<and> countInv cm'"
  using TagPeer_shape [of cm p tag val now cm'] tag_update_inv [of cm p] by blast

lemma UpsertTag_inv:
  "registryInv cm \<Longrightarrow> countInv cm \<Longrightarrow> UpsertTag cm p tag f now = Inr cm'
     \<Longrightarrow> registryInv cm' \<and> countInv cm'"
  using UpsertTag_shape [of cm p tag f now cm'] tag_update_inv [of cm p] by blast

lemma UntagPeer_inv:
  "registryInv cm \<Longrightarrow> countInv cm \<Longrightarrow> UntagPeer cm p tag = Inr cm'
     \<Longrightarrow> registryInv cm' \<and> countInv cm'"
  using UntagPeer_shape [of cm p tag cm'] tag_update_inv [of cm p] by blast

lemma liveConnsOf_delete_temp:
  assumes "distinct (map fst s)" "\<forall>old. (k, old) \<in> set s \<longrightarrow> liveOf old = 0"
  shows "liveConnsOf (AList.delete k s) = liveConnsOf s"
proof (cases "map_of s k")
  case None
  then have "k \<notin> fst ` set s" by (simp add: map_of_eq_None_iff)
  then show ?thesis by simp
next
  case (Some old)
  then have "(k, old) \<in> set s" by (rule map_of_SomeD)
  with assms(2) have "liveOf old = 0" by blast
  with liveConnsOf_delete [OF assms(1) Some] show ?thesis by simp
qed

lemma selectLoop_inv:
  assumes "registryInv cm" "countInv cm"
    "\<forall>pinf \<in> set cs. \<forall>b old. (id' pinf, old) \<in> set (segments cm b) \<longrightarrow> old = pinf"
    "selectLoop cm now cs target sel = Inr (sel', cm')"
  shows "registryInv cm' \<and> countInv cm'"
  using assms
proof (induction cs arbitrary: cm target sel)
  case Nil
  then show ?case by simp
next
  case (Cons pinf cs)
  from Cons.prems(3)
  have own: "\<forall>b old. (id' pinf, old) \<in> set (segments cm b) \<longrightarrow> old = pinf"
    and rest: "\<forall>pinf \<in> set cs. \<forall>b old. (id' pinf, old) \<in> set (segments cm b) \<longrightarrow> old = pinf"
    by simp_all
  show ?case
  proof (cases "word_sle target 0")
    case True
    with Cons.prems show ?thesis by simp
  next
    case notdone: False
    show ?thesis
    proof (cases "firstSeen pinf + gracePeriod cm > now")
      case True
      with Cons.prems(4) notdone have "selectLoop cm now cs target sel = Inr (sel', cm')" by simp
      from Cons.IH [OF Cons.prems(1,2) rest this] show ?thesis .
    next
      case False
      with Cons.prems(4) notdone obtain b where get: "segments_get (id' pinf) = Some b"
        by (cases "segments_get (id' pinf)") auto
      let ?t = "target - of_nat (length (conns pinf))"
      show ?thesis
      proof (cases "length (conns pinf) = 0 \<and> temp pinf")
        case True
        let ?s = "AList.delete (id' pinf) (segments cm b)"
        let ?cm1 = "cm\<lparr>segments := (segments cm)(b := ?s)\<rparr>"
        from Cons.prems(4) notdone False get True
        have run: "selectLoop ?cm1 now cs ?t sel = Inr (sel', cm')" by (simp add: Let_def)
        have inv1: "registryInv ?cm1" by (rule registryInv_delete [OF Cons.prems(1)])
        have "\<forall>old. (id' pinf, old) \<in> set (segments cm b) \<longrightarrow> liveOf old = 0"
          using own True by (auto simp: liveOf_def)
        from liveConnsOf_delete_temp [OF registryInv_shardD(1) [OF Cons.prems(1)] this]
        have "liveConns ?cm1 = liveConns cm"
          using liveConns_shard_update [of cm b ?s] by simp
        with Cons.prems(2) have cnt1: "countInv ?cm1" by (simp add: countInv_def)
        have rest1: "\<forall>pinf \<in> set cs. \<forall>b' old.
            (id' pinf, old) \<in> set (segments ?cm1 b') \<longrightarrow> old = pinf"
          using rest set_delete_subset [of "id' pinf" "segments cm b"] by (auto split: if_splits)
        from Cons.IH [OF inv1 cnt1 rest1 run] show ?thesis .
      next
        case nodel: False
        from Cons.prems(4) notdone False get nodel
        have "selectLoop cm now cs ?t (sel @ map fst (conns pinf)) = Inr (sel', cm')"
          by (auto simp: Let_def)
        from Cons.IH [OF Cons.prems(1,2) rest this] show ?thesis .
      qed
    qed
  qed
qed

lemma selectLoop_valueInv:
  "valueInv cm \<Longrightarrow> selectLoop cm now cs target sel = Inr (sel', cm') \<Longrightarrow> valueInv cm'"
proof (induction cs arbitrary: cm target sel)
  case Nil
  then show ?case by simp
next
  case (Cons pinf cs)
  show ?case
  proof (cases "word_sle target 0")
    case True
    with Cons.prems show ?thesis by simp
  next
    case notdone: False
    show ?thesis
    proof (cases "firstSeen pinf + gracePeriod cm > now")
      case True
      with Cons.prems(2) notdone have "selectLoop cm now cs target sel = Inr (sel', cm')" by simp
      from Cons.IH [OF Cons.prems(1) this] show ?thesis .
    next
      case False
      with Cons.prems(2) notdone obtain b where get: "segments_get (id' pinf) = Some b"
        by (cases "segments_get (id' pinf)") auto
      let ?t = "target - of_nat (length (conns pinf))"
      show ?thesis
      proof (cases "length (conns pinf) = 0 \<and> temp pinf")
        case True
        let ?s = "AList.delete (id' pinf) (segments cm b)"
        let ?cm1 = "cm\<lparr>segments := (segments cm)(b := ?s)\<rparr>"
        from Cons.prems(2) notdone False get True
        have run: "selectLoop ?cm1 now cs ?t sel = Inr (sel', cm')" by (simp add: Let_def)
        have "\<forall>(k, pinf) \<in> set ?s. recValueOk pinf"
          using valueInv_shard [OF Cons.prems(1), of b] set_delete_subset [of "id' pinf" "segments cm b"]
          by auto
        from valueInv_shard_update [OF Cons.prems(1) this]
        have "valueInv ?cm1" .
        from Cons.IH [OF this run] show ?thesis .
      next
        case nodel: False
        from Cons.prems(2) notdone False get nodel
        have "selectLoop cm now cs ?t (sel @ map fst (conns pinf)) = Inr (sel', cm')"
          by (auto simp: Let_def)
        from Cons.IH [OF Cons.prems(1) this] show ?thesis .
      qed
    qed
  qed
qed

lemma getConnsToClose_inv:
  assumes "sortSliceSpec srt" "registryInv cm" "countInv cm" "valueInv cm"
    "getConnsToClose srt cm now = Inr (sel, cm')"
  shows "registryInv cm' \<and> countInv cm' \<and> valueInv cm'"
proof -
  obtain num cands where sc: "scanSegments cm (Map.empty, []) allShards = (num, cands)"
    by (cases "scanSegments cm (Map.empty, []) allShards")
  from getConnsToClose_run [OF assms(5) sc]
  show ?thesis
  proof
    assume "sel = [] \<and> cm' = cm"
    with assms show ?thesis by simp
  next
    assume run: "selectLoop cm now (srt cands) (scast (connCount cm) - lowWater cm) []
        = Inr (sel, cm')"
    have "\<forall>pinf \<in> set (srt cands). \<forall>b old. (id' pinf, old) \<in> set (segments cm b) \<longrightarrow> old = pinf"
    proof (intro ballI allI impI)
      fix pinf b old
      assume "pinf \<in> set (srt cands)" and old: "(id' pinf, old) \<in> set (segments cm b)"
      then have "pinf \<in> set cands" using sortSliceSpec_set [OF assms(1)] by simp
      with scanSegments_candidates [OF sc]
      obtain b' k where m: "(k, pinf) \<in> set (segments cm b')" by auto
      from registryInv_shardD(2) [OF assms(2) m] have "id' pinf = k" by (simp add: recKeyOk_def)
      with m old record_unique [OF assms(2)] show "old = pinf" by blast
    qed
    from selectLoop_inv [OF assms(2,3) this run] selectLoop_valueInv [OF assms(4) run]
    show ?thesis by simp
  qed
qed

lemma TrimOpenConns_inv:
  assumes "sortSliceSpec srt" "registryInv cm" "countInv cm" "valueInv cm"
    "TrimOpenConns srt cm tSince now tEnd = Inr (closed, cm')"
  shows "registryInv cm' \<and> countInv cm' \<and> valueInv cm'"
proof (cases "trimRunning cm \<or> tSince - lastTrim cm < silencePeriod cm")
  case True
  with assms(5) have "cm' = cm" by (auto simp: TrimOpenConns_def split: if_splits)
  with assms show ?thesis by simp
next
  case False
  with assms(5) obtain sel cm1 where g: "getConnsToClose srt cm now = Inr (sel, cm1)"
    and c: "cm' = cm1\<lparr>lastTrim := tEnd\<rparr>"
    by (auto simp: TrimOpenConns_def split: sum.splits)
  from getConnsToClose_inv [OF assms(1-4) g] show ?thesis
    unfolding c by (simp add: countInv_def)
qed

lemma recValueOk_same:
  "recValueOk old \<Longrightarrow> tags v = tags old \<Longrightarrow> value' v = value' old \<Longrightarrow> recValueOk v"
  by (simp add: recValueOk_def)

lemma valueInv_segments: "segments cm' = segments cm \<Longrightarrow> valueInv cm' = valueInv cm"
  by (simp add: valueInv_def)

lemma Connected_valueInv:
  assumes "valueInv cm" "Connected cm c tSeen tConn = Inr cm'"
  shows "valueInv cm'"
proof -
  let ?p = "RemotePeer c"
  let ?b = "last ?p"
  let ?s = "segments cm ?b"
  from assms(2) have ne: "?p \<noteq> []"
    by (auto simp: Connected_def segments_get_def Let_def split: if_splits)
  then have get: "segments_get ?p = Some ?b" by (rule segments_get_last)
  have all: "\<forall>(k, pinf) \<in> set ?s. recValueOk pinf" by (rule valueInv_shard [OF assms(1)])
  have upd: "valueInv cm'"
    if "recValueOk v" "segments cm' = (segments cm)(?b := AList.update ?p v ?s)" for v
  proof -
    have "\<forall>(k, pinf) \<in> set (AList.update ?p v ?s). recValueOk pinf"
      using all that(1) by (auto dest: set_update_cases)
    from valueInv_shard_update [OF assms(1) this, of ?b]
    have "valueInv (cm\<lparr>segments := (segments cm)(?b := AList.update ?p v ?s)\<rparr>)" .
    moreover have "segments cm' = segments (cm\<lparr>segments := (segments cm)(?b := AList.update ?p v ?s)\<rparr>)"
      using that(2) by simp
    ultimately show ?thesis using valueInv_segments by blast
  qed
  show ?thesis
  proof (cases "map_of ?s ?p")
    case None
    with assms(2) get
    have "segments cm' = (segments cm)(?b := AList.update ?p
        \<lparr>id' = ?p, tags = [], value' = 0, temp = False, conns = [(c, tConn)], firstSeen = tSeen\<rparr> ?s)"
      by (auto simp: Connected_def Let_def)
    moreover have "recValueOk \<lparr>id' = ?p, tags = [], value' = 0, temp = False,
        conns = [(c, tConn)], firstSeen = tSeen\<rparr>"
      by (simp add: recValueOk_def)
    ultimately show ?thesis using upd by blast
  next
    case (Some pi)
    then have "(?p, pi) \<in> set ?s" by (rule map_of_SomeD)
    with all have pi: "recValueOk pi" by auto
    from assms(2) get Some
    have "segments cm' = segments cm \<or>
      (\<exists>v. segments cm' = (segments cm)(?b := AList.update ?p v ?s) \<and>
         tags v = tags pi \<and> value' v = value' pi)"
      by (auto simp: Connected_def Let_def split: if_splits)
    then show ?thesis
    proof
      assume "segments cm' = segments cm"
      with assms(1) show ?thesis using valueInv_segments by blast
    next
      assume "\<exists>v. segments cm' = (segments cm)(?b := AList.update ?p v ?s) \<and>
         tags v = tags pi \<and> value' v = value' pi"
      then obtain v where
        c: "segments cm' = (segments cm)(?b := AList.update ?p v ?s)"
        and t: "tags v = tags pi" "value' v = value' pi" by blast
      from upd [OF recValueOk_same [OF pi t] c] show ?thesis .
    qed
  qed
qed

lemma Disconnected_valueInv:
  assumes "valueInv cm" "Disconnected cm c = Inr cm'"
  shows "valueInv cm'"
proof -
  let ?p = "RemotePeer c"
  let ?b = "last ?p"
  let ?s = "segments cm ?b"
  from assms(2) have ne: "?p \<noteq> []"
    by (auto simp: Disconnected_def segments_get_def Let_def split: if_splits)
  then have get: "segments_get ?p = Some ?b" by (rule segments_get_last)
  have all: "\<forall>(k, pinf) \<in> set ?s. recValueOk pinf" by (rule valueInv_shard [OF assms(1)])
  show ?thesis
  proof (cases "map_of ?s ?p")
    case None
    with assms get show ?thesis by (simp add: Disconnected_def)
  next
    case (Some cinf)
    then have "(?p, cinf) \<in> set ?s" by (rule map_of_SomeD)
    with all have "recValueOk cinf" by auto
    then have v: "recValueOk (cinf\<lparr>conns := AList.delete c (conns cinf)\<rparr>)"
      by (simp add: recValueOk_def)
    let ?s1 = "AList.update ?p (cinf\<lparr>conns := AList.delete c (conns cinf)\<rparr>) ?s"
    have s1: "\<forall>(k, pinf) \<in> set ?s1. recValueOk pinf"
      using all v by (auto dest: set_update_cases)
    then have s2: "\<forall>(k, pinf) \<in> set (AList.delete ?p ?s1). recValueOk pinf"
      using set_delete_subset [of ?p ?s1] by auto
    from assms(2) get Some
    have "cm' = cm \<or> cm' = cm\<lparr>segments := (segments cm)(?b := ?s1), connCount := connCount cm - 1\<rparr>
        \<or> cm' = cm\<lparr>segments := (segments cm)(?b := AList.delete ?p ?s1),
                    connCount := connCount cm - 1\<rparr>"
      by (auto simp: Disconnected_def Let_def split: if_splits)
    then show ?thesis
      using assms(1) valueInv_shard_update [OF assms(1) s1] valueInv_shard_update [OF assms(1) s2]
      by auto
  qed
qed

lemma Protect_inv:
  "registryInv cm \<Longrightarrow> countInv cm \<Longrightarrow> valueInv cm \<Longrightarrow>
     registryInv (Protect cm p tag) \<and> countInv (Protect cm p tag) \<and> valueInv (Protect cm p tag)"
  by (simp add: Protect_def Let_def countInv_def)

lemma Unprotect_inv:
  "registryInv cm \<Longrightarrow> countInv cm \<Longrightarrow> valueInv cm \<Longrightarrow>
     registryInv (snd (Unprotect cm p tag)) \<and> countInv (snd (Unprotect cm p tag)) \<and>
     valueInv (snd (Unprotect cm p tag))"
  by (simp add: Unprotect_def Let_def countInv_def split: option.splits)

lemma reachable_invariants:
  "reachable cm \<Longrightarrow> registryInv cm \<and> countInv cm \<and> valueInv cm"
proof (induction rule: reachable.induct)
  case (reach_new low hi grace ps mins)
  show ?case using NewConnManager_inv NewConnManager_valueInv by simp
next
  case (reach_TagPeer cm p tag val now cm')
  then show ?case using TagPeer_inv TagPeer_valueInv by blast
next
  case (reach_UntagPeer cm p tag cm')
  then show ?case using UntagPeer_inv UntagPeer_valueInv by blast
next
  case (reach_UpsertTag cm p tag upsert now cm')
  then show ?case using UpsertTag_inv UpsertTag_valueInv by blast
next
  case (reach_Connected cm c tSeen tConn cm')
  then show ?case using Connected_inv Connected_valueInv by blast
next
  case (reach_Disconnected cm c cm')
  then show ?case using Disconnected_inv Disconnected_valueInv by blast
next
  case (reach_Protect cm p tag)
  then show ?case using Protect_inv by blast
next
  case (reach_Unprotect cm p tag)
  then show ?case using Unprotect_inv by blast
next
  case (reach_Trim cm srt tSince now tEnd closed cm')
  then show ?case using TrimOpenConns_inv by blast
qed

lemma reachable_tempNoConns: "reachable cm \<Longrightarrow> tempNoConns cm"
  using reachable_invariants registryInv_tempNoConns by blast

end
